theory Spec2Isabelle
  imports Main "HOL-Library.Char_ord" "HOL-Library.List_Lexorder"
begin

unbundle bit_operations_syntax

section \<open>Data model of the bundle manager (src/src/bundle.c)\<close>

text \<open>
  The exit codes of \<^verbatim>\<open>enum swupd_code\<close> that bundle.c uses.  \<open>SWUPD_OK\<close> is the
  code 0 (the source tests \<^verbatim>\<open>ret != 0\<close> and \<^verbatim>\<open>!ret\<close>).  \<open>SWUPD_OTHER n\<close> stands for
  an integer code that bundle.c only passes through: the result of \<^verbatim>\<open>swupd_init\<close> and
  the absolute value of the result of \<^verbatim>\<open>download_fullfiles\<close>.
\<close>

datatype swupd_code =
    SWUPD_OK
  | SWUPD_CURRENT_VERSION_UNKNOWN
  | SWUPD_COULDNT_LOAD_MOM
  | SWUPD_COULDNT_LOAD_MANIFEST
  | SWUPD_RECURSE_MANIFEST
  | SWUPD_INVALID_BUNDLE
  | SWUPD_BUNDLE_NOT_TRACKED
  | SWUPD_REQUIRED_BUNDLE_ERROR
  | SWUPD_DISK_SPACE_ERROR
  | SWUPD_COULDNT_REMOVE_FILE
  | SWUPD_OTHER int

text \<open>\<^verbatim>\<open>struct file\<close>: the fields that bundle.c reads.\<close>

record swupd_file =
  filename :: string
  hash :: string
  is_deleted :: bool
  is_dir :: bool
  do_not_update :: bool
  is_experimental :: bool
  last_change :: int
  staging :: "string option"

text \<open>\<^verbatim>\<open>struct manifest\<close>: the fields that bundle.c reads (\<open>includes_list\<close> is the field \<^verbatim>\<open>includes\<close>).\<close>

record manifest =
  component :: string
  includes_list :: "string list"
  optional :: "string list"
  files :: "swupd_file list"
  contentsize :: int

text \<open>
  What the operations print and what they do to the system, in program order.
  Messages carry the values that the format strings of the source print.
\<close>

datatype event =
    Warn_os_core_skipped
  | Warn_invalid_skipped string
  | Warn_not_installed_skipped string
  | Error_required_skipped string nat
  | Info_force_used string
  | Info_removing_bundle string
  | Info_deleting_files
  | Info_total_deleted nat
  | Print_failed_to_remove int int
  | Print_successfully_removed int
  | Print_failed_to_remove_bundles
  | Error_msg string
  | Telemetry_bundleremove swupd_code
  | Untracked string
  | Unlinked string
  | Warn_already_installed string
  | Warn_experimental string
  | Tracked string
  | Track_failed string
  | Error_disk_space
  | Rm_download_dir
  | Download_packs
  | Download_fullfiles "string list"
  | Verify_staged string
  | Warn_hash_check_failed string
  | Rm_staged string
  | Staged string
  | Renamed string
  | Sync
  | Scripts_run
  | Print_failed_to_install int int
  | Print_successfully_installed int
  | Print_dependencies_installed int
  | Print_already_installed int

section \<open>Helpers of bundle.c\<close>

text \<open>
  The target tree is the list of the paths that exist below \<^verbatim>\<open>globals.path_prefix\<close>,
  each written as a manifest writes it (\<^verbatim>\<open>/usr/bin/foo\<close>).

  Modelled from the spec: the macro \<^verbatim>\<open>BUNDLES_DIR\<close> of config.h is missing; the persisted
  layout of the spec gives \<^verbatim>\<open><prefix>/usr/share/clear/bundles/<name>\<close>.
\<close>

definition BUNDLES_DIR :: string where
  "BUNDLES_DIR = ''usr/share/clear/bundles''"

definition bundle_marker :: "string \<Rightarrow> string" where
  "bundle_marker bundle_name = ''/'' @ BUNDLES_DIR @ ''/'' @ bundle_name"

text \<open>\<^verbatim>\<open>is_installed_bundle\<close>: \<^verbatim>\<open>stat\<close> of the marker succeeds.\<close>

definition is_installed_bundle :: "string list \<Rightarrow> string \<Rightarrow> bool" where
  "is_installed_bundle fs bundle_name = (bundle_marker bundle_name \<in> set fs)"

text \<open>
  Modelled from the spec: \<^verbatim>\<open>search_bundle_in_manifest\<close> is missing; the spec says
  "look up the bundle in the MoM".  The MoM is the list of its file records, one per
  bundle manifest.
\<close>

definition search_bundle_in_manifest :: "swupd_file list \<Rightarrow> string \<Rightarrow> swupd_file option" where
  "search_bundle_in_manifest mom_manifests bundle =
     find (\<lambda>f. filename f = bundle) mom_manifests"

text \<open>
  \<^verbatim>\<open>required_by\<close>.  The walk over \<^verbatim>\<open>mom->submanifests\<close> and the walk over the
  \<^verbatim>\<open>includes\<close> of one bundle are the two loops of the source; the recursive call is
  made for every include that names the target, whether or not the bundle is excluded.
  A cycle of includes makes the source recurse without end, so the recursion carries
  fuel and \<open>None\<close> means that it did not return.  The \<^verbatim>\<open>info\<close> output of the
  function (the dependency tree and the list) has no effect on its result and is left
  out.

  Modelled from the spec: \<^verbatim>\<open>list_search\<close> with \<^verbatim>\<open>list_strcmp\<close> (membership of the name
  in the exclusions) and \<^verbatim>\<open>list_str_deduplicate\<close> ("the list is deduplicated by name")
  are missing.
\<close>

fun required_by_includes ::
    "nat \<Rightarrow> manifest list \<Rightarrow> string list \<Rightarrow> string \<Rightarrow> manifest \<Rightarrow> string list \<Rightarrow>
     string list \<Rightarrow> string list option"
and required_by_walk ::
    "nat \<Rightarrow> manifest list \<Rightarrow> string list \<Rightarrow> string \<Rightarrow> manifest list \<Rightarrow>
     string list \<Rightarrow> string list option"
where
  "required_by_includes fuel subm exclusions bundle_name bundle [] reqd = Some reqd"
| "required_by_includes fuel subm exclusions bundle_name bundle (name # rest) reqd =
     (if name = bundle_name then
        (case fuel of
           0 \<Rightarrow> None
         | Suc n \<Rightarrow>
            (case required_by_walk n subm exclusions (component bundle) subm
                    (if component bundle \<notin> set exclusions
                     then reqd @ [component bundle] else reqd) of
               None \<Rightarrow> None
             | Some reqd' \<Rightarrow>
                 required_by_includes fuel subm exclusions bundle_name bundle rest reqd'))
      else required_by_includes fuel subm exclusions bundle_name bundle rest reqd)"
| "required_by_walk fuel subm exclusions bundle_name [] reqd = Some reqd"
| "required_by_walk fuel subm exclusions bundle_name (bundle # bs) reqd =
     (if component bundle = bundle_name then
        required_by_walk fuel subm exclusions bundle_name bs reqd
      else
        (case required_by_includes fuel subm exclusions bundle_name bundle
                (includes_list bundle) reqd of
           None \<Rightarrow> None
         | Some reqd' \<Rightarrow> required_by_walk fuel subm exclusions bundle_name bs reqd'))"

definition required_by ::
    "nat \<Rightarrow> manifest list \<Rightarrow> string list \<Rightarrow> string \<Rightarrow> string list option" where
  "required_by fuel subm exclusions bundle_name =
     map_option remdups (required_by_walk fuel subm exclusions bundle_name subm [])"


text \<open>
  \<^verbatim>\<open>strcmp\<close>, up to the sign of its result: strings are compared byte by byte.
\<close>

definition strcmp :: "string \<Rightarrow> string \<Rightarrow> int" where
  "strcmp a b = (if a = b then 0 else if a < b then - 1 else 1)"

text \<open>
  \<^verbatim>\<open>filter_files_to_delete\<close>: the comparison that \<^verbatim>\<open>remove_bundles\<close> hands to
  \<^verbatim>\<open>list_filter_common_elements\<close>; the result 0 is a match, and a matched record
  leaves the list of the files to delete.
\<close>

definition filter_files_to_delete :: "swupd_file \<Rightarrow> swupd_file \<Rightarrow> int" where
  "filter_files_to_delete A B =
     (if is_deleted A then 0
      else if strcmp (filename A) (filename B) \<noteq> 0 then strcmp (filename A) (filename B)
      else if \<not> is_deleted B then 0
      else - 1)"

text \<open>
  Modelled from the spec: \<^verbatim>\<open>list_filter_common_elements\<close> is missing.  The spec says of
  its use "yields paths present in removed but absent from the consolidated kept set":
  a record of the first list stays unless it matches a record of the second list.
\<close>

definition list_filter_common_elements ::
    "'a list \<Rightarrow> 'b list \<Rightarrow> ('a \<Rightarrow> 'b \<Rightarrow> int) \<Rightarrow> 'a list" where
  "list_filter_common_elements list1 list2 comparison_fn =
     filter (\<lambda>a. \<not> list_ex (\<lambda>b. comparison_fn a b = 0) list2) list1"

text \<open>
  Modelled from the spec: \<^verbatim>\<open>consolidate_files_from_bundles\<close> is missing.  The spec:
  "Concatenates all files, sorts by path, then resolves same-path collisions
  deterministically: among duplicates, a non-deleted record wins over a deleted one;
  ties among non-deleted resolve to the record with the higher last_change."
  Between two deleted records the one with the higher last_change is kept as well.
\<close>

definition collision_winner :: "swupd_file \<Rightarrow> swupd_file \<Rightarrow> swupd_file" where
  "collision_winner a b =
     (if is_deleted a \<and> \<not> is_deleted b then b
      else if \<not> is_deleted a \<and> is_deleted b then a
      else if last_change b \<le> last_change a then a else b)"

fun resolve_collisions :: "swupd_file list \<Rightarrow> swupd_file list" where
  "resolve_collisions (a # b # rest) =
     (if filename a = filename b then resolve_collisions (collision_winner a b # rest)
      else a # resolve_collisions (b # rest))"
| "resolve_collisions xs = xs"

definition consolidate_files_from_bundles :: "manifest list \<Rightarrow> swupd_file list" where
  "consolidate_files_from_bundles bundles =
     resolve_collisions (sort_key filename (concat (map files bundles)))"

text \<open>
  Modelled from the spec: \<^verbatim>\<open>list_move_item\<close> is missing.  The spec: "Move the Manifest
  for each target bundle from submanifests into bundles_to_remove".  The first manifest
  that \<^verbatim>\<open>find_manifest\<close> matches (equal \<^verbatim>\<open>component\<close>) moves; without a match both
  lists stay as they are.
\<close>

definition list_move_item ::
    "string \<Rightarrow> manifest list \<Rightarrow> manifest list \<Rightarrow> manifest list \<times> manifest list" where
  "list_move_item name list1 list2 =
     (case find (\<lambda>m. component m = name) list1 of
        None \<Rightarrow> (list1, list2)
      | Some m \<Rightarrow> (remove1 m list1, list2 @ [m]))"

section \<open>remove_bundles\<close>

text \<open>
  The locals of \<^verbatim>\<open>remove_bundles\<close> that the loop changes, with the parts of the system
  that the function touches: the target tree \<open>fs\<close>, the names in the tracking
  directory \<^verbatim>\<open><state>/bundles\<close>, and the events so far.
\<close>

record rstate =
  ret_code :: swupd_code
  bad :: int
  total :: int
  submanifests :: "manifest list"
  bundles_to_remove :: "manifest list"
  fs :: "string list"
  tracking :: "string list"
  events :: "event list"

text \<open>
  What \<^verbatim>\<open>remove_bundles\<close> reads from its collaborators: the result of \<^verbatim>\<open>swupd_init\<close>,
  of \<^verbatim>\<open>get_current_version\<close>, of \<^verbatim>\<open>load_mom\<close> (\<open>None\<close> is the null pointer), of
  \<^verbatim>\<open>recurse_manifest\<close> over the tracked bundles (the empty list is the null pointer),
  and the option \<^verbatim>\<open>--force\<close>.
\<close>

record remove_env =
  init_ret :: int
  current_version :: int
  current_mom :: "swupd_file list option"
  loaded_submanifests :: "manifest list"
  cmdline_option_force :: bool

definition emit :: "event \<Rightarrow> rstate \<Rightarrow> rstate" where
  "emit e st = st\<lparr>events := events st @ [e]\<rparr>"

text \<open>\<^verbatim>\<open>remove_tracked\<close>: the tracking file is removed; a failure is ignored.\<close>

definition remove_tracked :: "string \<Rightarrow> rstate \<Rightarrow> rstate" where
  "remove_tracked bundle st =
     emit (Untracked bundle) (st\<lparr>tracking := filter (\<lambda>n. n \<noteq> bundle) (tracking st)\<rparr>)"

definition move_to_remove :: "string \<Rightarrow> rstate \<Rightarrow> rstate" where
  "move_to_remove name st =
     (case list_move_item name (submanifests st) (bundles_to_remove st) of
        (l1, l2) \<Rightarrow> st\<lparr>submanifests := l1, bundles_to_remove := l2\<rparr>)"

definition skip_bundle :: "event \<Rightarrow> swupd_code \<Rightarrow> rstate \<Rightarrow> rstate" where
  "skip_bundle e code st = (emit e st)\<lparr>ret_code := code, bad := bad st + 1\<rparr>"

text \<open>
  The body of the \<^verbatim>\<open>for\<close> loop for the bundle at the head of \<open>bundles\<close>; the source
  hands the loop cursor \<^verbatim>\<open>bundles\<close> to \<^verbatim>\<open>required_by\<close> as the exclusions.
\<close>

definition remove_body ::
    "nat \<Rightarrow> remove_env \<Rightarrow> swupd_file list \<Rightarrow> string \<Rightarrow> string list \<Rightarrow> rstate \<Rightarrow> rstate option" where
  "remove_body fuel env mom bundle bundles st =
     (if bundle = ''os-core'' then
        Some (skip_bundle Warn_os_core_skipped SWUPD_REQUIRED_BUNDLE_ERROR st)
      else if search_bundle_in_manifest mom bundle = None then
        Some (skip_bundle (Warn_invalid_skipped bundle) SWUPD_INVALID_BUNDLE st)
      else if \<not> is_installed_bundle (fs st) bundle then
        Some (skip_bundle (Warn_not_installed_skipped bundle) SWUPD_BUNDLE_NOT_TRACKED st)
      else
        (case required_by fuel (submanifests st) bundles bundle of
           None \<Rightarrow> None
         | Some reqd_by \<Rightarrow>
            (if length reqd_by > 0 then
               (if \<not> cmdline_option_force env then
                  Some (skip_bundle (Error_required_skipped bundle (length reqd_by))
                          SWUPD_REQUIRED_BUNDLE_ERROR st)
                else
                  Some (remove_tracked bundle (emit (Info_removing_bundle bundle)
                    (move_to_remove bundle
                      (fold (\<lambda>dep s. remove_tracked dep (move_to_remove dep s)) reqd_by
                         (emit (Info_force_used bundle) st))))))
             else
               Some (remove_tracked bundle (emit (Info_removing_bundle bundle)
                       (move_to_remove bundle st))))))"

fun remove_loop ::
    "nat \<Rightarrow> remove_env \<Rightarrow> swupd_file list \<Rightarrow> string list \<Rightarrow> rstate \<Rightarrow> rstate option" where
  "remove_loop fuel env mom [] st = Some st"
| "remove_loop fuel env mom (bundle # rest) st =
     (case remove_body fuel env mom bundle (bundle # rest) st of
        None \<Rightarrow> None
      | Some st' \<Rightarrow> remove_loop fuel env mom rest (st'\<lparr>total := total st' + 1\<rparr>))"

text \<open>
  Modelled from the spec: \<^verbatim>\<open>remove_files_from_fs\<close> is missing.  The spec: "Unlink the
  resulting paths."  The result counts the paths that were there to unlink.
\<close>

fun remove_files_from_fs :: "swupd_file list \<Rightarrow> rstate \<Rightarrow> nat \<Rightarrow> rstate \<times> nat" where
  "remove_files_from_fs [] st deleted = (st, deleted)"
| "remove_files_from_fs (f # rest) st deleted =
     (if filename f \<in> set (fs st) then
        remove_files_from_fs rest
          (emit (Unlinked (filename f)) (st\<lparr>fs := filter (\<lambda>p. p \<noteq> filename f) (fs st)\<rparr>))
          (Suc deleted)
      else remove_files_from_fs rest st deleted)"

text \<open>The part of \<^verbatim>\<open>remove_bundles\<close> after the loop, up to the \<^verbatim>\<open>return\<close>.\<close>

definition remove_selected :: "rstate \<Rightarrow> rstate" where
  "remove_selected st =
     (if bundles_to_remove st \<noteq> [] then
        (let files_to_remove =
               list_filter_common_elements
                 (consolidate_files_from_bundles (bundles_to_remove st))
                 (consolidate_files_from_bundles (submanifests st))
                 filter_files_to_delete
         in if length files_to_remove > 0 then
              (case remove_files_from_fs files_to_remove (emit Info_deleting_files st) 0 of
                 (st', deleted) \<Rightarrow> emit (Info_total_deleted deleted) st')
            else st)
      else st)"

definition report_totals :: "rstate \<Rightarrow> rstate" where
  "report_totals st =
     (if bad st > 0 then emit (Print_failed_to_remove (bad st) (total st)) st
      else emit (Print_successfully_removed (total st)) st)"

definition out_deinit :: "swupd_code \<Rightarrow> rstate \<Rightarrow> rstate" where
  "out_deinit code st =
     emit Print_failed_to_remove_bundles (emit (Telemetry_bundleremove code) (st\<lparr>ret_code := code\<rparr>))"

text \<open>
  \<^verbatim>\<open>remove_bundles\<close>, started on a target tree and a tracking directory.  The returned
  state holds the exit code in \<open>ret_code\<close>.
\<close>

definition initial_rstate :: "string list \<Rightarrow> string list \<Rightarrow> rstate" where
  "initial_rstate fs0 tracking0 =
     \<lparr>ret_code = SWUPD_OK, bad = 0, total = 0, submanifests = [], bundles_to_remove = [],
      fs = fs0, tracking = tracking0, events = []\<rparr>"

definition remove_bundles ::
    "nat \<Rightarrow> remove_env \<Rightarrow> string list \<Rightarrow> string list \<Rightarrow> string list \<Rightarrow> rstate option" where
  "remove_bundles fuel env fs0 tracking0 bundles =
     (let st = initial_rstate fs0 tracking0 in
      if init_ret env \<noteq> 0 then
        Some (emit (Error_msg ''Failed updater initialization, exiting now'')
                (st\<lparr>ret_code := SWUPD_OTHER (init_ret env)\<rparr>))
      else if current_version env < 0 then
        Some (out_deinit SWUPD_CURRENT_VERSION_UNKNOWN
                (emit (Error_msg ''Unable to determine current OS version'') st))
      else
        (case current_mom env of
           None \<Rightarrow>
             Some (out_deinit SWUPD_COULDNT_LOAD_MOM
                     (emit (Error_msg ''Unable to download/verify Manifest.MoM'') st))
         | Some mom \<Rightarrow>
            (if loaded_submanifests env = [] then
               Some (out_deinit SWUPD_RECURSE_MANIFEST
                       (emit (Error_msg ''Cannot load MoM sub-manifests'') st))
             else
               map_option (\<lambda>st'. report_totals (remove_selected st'))
                 (remove_loop fuel env mom bundles
                    (st\<lparr>submanifests := loaded_submanifests env\<rparr>)))))"

section \<open>add_subscriptions\<close>

text \<open>The bits of the result of \<^verbatim>\<open>add_subscriptions\<close>, as its comment numbers them.\<close>

definition add_sub_ERR :: int where "add_sub_ERR = 1"
definition add_sub_NEW :: int where "add_sub_NEW = 2"
definition add_sub_BADNAME :: int where "add_sub_BADNAME = 4"

text \<open>
  What \<^verbatim>\<open>install_bundles\<close> reads from its collaborators and from \<^verbatim>\<open>globals\<close>.  The
  functions stand for code that is not in bundle.c, as it answers during one run:
  \<^item> \<open>mom_manifests\<close>: the records of \<^verbatim>\<open>mom->manifests\<close>;
  \<^item> \<open>load_manifest\<close>: the manifest of a record of the MoM (\<open>None\<close> is the null pointer);
  \<^item> \<open>recurse_manifest\<close>: the manifests of a list of subscriptions (the empty list is
    the null pointer);
  \<^item> \<open>available_space\<close>: the result of \<^verbatim>\<open>get_available_space\<close>, negative on failure;
  \<^item> \<open>fudge_exceeds\<close>: the C comparison \<^verbatim>\<open>(bundle_size * 1.1) > fs_free\<close>, which the source
    computes in double precision;
  \<^item> \<open>download_fullfiles\<close>: its result and the staging area it leaves;
  \<^item> \<open>swupd_rm_ret\<close>, \<open>rm_rf_ret\<close>, \<open>copy_all_ret\<close>, \<open>chmod_ret\<close>, \<open>open_fails\<close>: the
    results of the file operations;
  \<^item> \<open>do_staging\<close>: its result and the value of \<^verbatim>\<open>file->staging\<close> that it leaves;
  \<^item> \<open>ignore\<close>: the predicate \<^verbatim>\<open>ignore(file)\<close>.
\<close>

record install_env =
  mom_manifests :: "swupd_file list"
  load_manifest :: "swupd_file \<Rightarrow> manifest option"
  recurse_manifest :: "string list \<Rightarrow> manifest list"
  skip_optional_bundles :: bool
  skip_diskspace_check :: bool
  available_space :: int
  fudge_exceeds :: "int \<Rightarrow> int \<Rightarrow> bool"
  download_fullfiles :: "swupd_file list \<Rightarrow> (string \<times> string) list \<Rightarrow> int \<times> (string \<times> string) list"
  swupd_rm_ret :: "string \<Rightarrow> int"
  do_staging :: "swupd_file \<Rightarrow> int \<times> string option"
  ignore :: "swupd_file \<Rightarrow> bool"
  rm_rf_ret :: int
  copy_all_ret :: int
  chmod_ret :: int
  open_fails :: "string \<Rightarrow> bool"

text \<open>
  \<^verbatim>\<open>add_subscriptions\<close>.  The result is the bit mask and the subscriptions, which the
  source updates in place.  The loop is the recursion over the list; the calls for the
  includes and for the optional bundles take fuel, and \<open>None\<close> means that the recursion
  did not return.  A manifest that does not load ends the loop of that call alone
  (\<^verbatim>\<open>goto out\<close>).

  Modelled from the spec: \<^verbatim>\<open>component_subscribed\<close> (membership in the subscriptions)
  and \<^verbatim>\<open>create_and_append_subscription\<close> are missing.
\<close>

fun add_subscriptions ::
    "nat \<Rightarrow> install_env \<Rightarrow> string list \<Rightarrow> string list \<Rightarrow> string list \<Rightarrow> bool \<Rightarrow> nat \<Rightarrow>
     (int \<times> string list) option" where
  "add_subscriptions fuel env target [] subs find_all recursion = Some (0, subs)"
| "add_subscriptions fuel env target (bundle # rest) subs find_all recursion =
     (case search_bundle_in_manifest (mom_manifests env) bundle of
        None \<Rightarrow>
          (case add_subscriptions fuel env target rest subs find_all recursion of
             None \<Rightarrow> None
           | Some (ret, subs') \<Rightarrow> Some (add_sub_BADNAME OR ret, subs'))
      | Some file \<Rightarrow>
          (if \<not> find_all \<and> is_installed_bundle target bundle then
             add_subscriptions fuel env target rest subs find_all recursion
           else
             (case load_manifest env file of
                None \<Rightarrow> Some (add_sub_ERR, subs)
              | Some manifest \<Rightarrow>
                  (if bundle \<in> set subs \<and> recursion > 0 then
                     add_subscriptions fuel env target rest subs find_all recursion
                   else
                     (case (if includes_list manifest \<noteq> [] then
                              (case fuel of
                                 0 \<Rightarrow> None
                               | Suc n \<Rightarrow>
                                   add_subscriptions n env target (includes_list manifest)
                                     (if bundle \<in> set subs then subs else subs @ [bundle])
                                     find_all (recursion + 1))
                            else Some (0, if bundle \<in> set subs then subs else subs @ [bundle])) of
                        None \<Rightarrow> None
                      | Some (ret1, subs1) \<Rightarrow>
                          (case (if \<not> skip_optional_bundles env \<and> optional manifest \<noteq> [] then
                                   (case fuel of
                                      0 \<Rightarrow> None
                                    | Suc n \<Rightarrow>
                                        add_subscriptions n env target (optional manifest) subs1
                                          find_all (recursion + 1))
                                 else Some (0, subs1)) of
                             None \<Rightarrow> None
                           | Some (ret2, subs2) \<Rightarrow>
                               (case add_subscriptions fuel env target rest subs2 find_all recursion of
                                  None \<Rightarrow> None
                                | Some (ret3, subs3) \<Rightarrow>
                                    Some ((if bundle \<in> set subs then 0 else add_sub_NEW)
                                            OR ret1 OR ret2 OR ret3, subs3))))))))"

section \<open>install_bundles\<close>

text \<open>
  The system as \<^verbatim>\<open>install_bundles\<close> sees it: the target tree, the staging area
  \<^verbatim>\<open><state>/staged\<close> (the name of each file there with the digest of its content), the
  names in the tracking directory \<^verbatim>\<open><state>/bundles\<close>, and the events so far.
\<close>

record istate =
  target :: "string list"
  staged :: "(string \<times> string) list"
  tracked :: "string list"
  trace :: "event list"

definition log_event :: "event \<Rightarrow> istate \<Rightarrow> istate" where
  "log_event e st = st\<lparr>trace := trace st @ [e]\<rparr>"

text \<open>The entries of \<^verbatim>\<open><prefix>/usr/share/clear/bundles\<close>.\<close>

definition system_bundles :: "string list \<Rightarrow> string list" where
  "system_bundles fs0 =
     map (drop (length (bundle_marker [])))
       (filter (\<lambda>p. take (length (bundle_marker [])) p = bundle_marker []) fs0)"

text \<open>
  \<^verbatim>\<open>track_installed\<close>.  A tracking directory that is missing or empty is replaced by a
  copy of the system's bundle directory, without \<^verbatim>\<open>.MoM\<close>; then the tracking file is
  created.  Every failure ends the function (\<^verbatim>\<open>goto out\<close>) with a debug message only.

  Modelled from the spec: \<^verbatim>\<open>is_populated_dir\<close>, \<^verbatim>\<open>rm_rf\<close> and \<^verbatim>\<open>copy_all\<close> are missing
  ("if the tracking directory is empty or missing, seed it by copying the system's
  authoritative bundle directory").
\<close>

definition create_tracking_file :: "install_env \<Rightarrow> string \<Rightarrow> istate \<Rightarrow> istate" where
  "create_tracking_file env bundle_name st =
     (if open_fails env bundle_name then log_event (Track_failed bundle_name) st
      else log_event (Tracked bundle_name)
             (st\<lparr>tracked := (if bundle_name \<in> set (tracked st) then tracked st
                               else tracked st @ [bundle_name])\<rparr>))"

definition track_installed :: "install_env \<Rightarrow> string \<Rightarrow> istate \<Rightarrow> istate" where
  "track_installed env bundle_name st =
     (if tracked st = [] then
        (if rm_rf_ret env \<noteq> 0 then log_event (Track_failed bundle_name) st
         else if copy_all_ret env \<noteq> 0 then log_event (Track_failed bundle_name) st
         else if chmod_ret env \<noteq> 0 then
           log_event (Track_failed bundle_name)
             (st\<lparr>tracked := filter (\<lambda>n. n \<noteq> ''.MoM'') (system_bundles (target st))\<rparr>)
         else
           create_tracking_file env bundle_name
             (st\<lparr>tracked := filter (\<lambda>n. n \<noteq> ''.MoM'') (system_bundles (target st))\<rparr>))
      else create_tracking_file env bundle_name st)"

text \<open>
  The first loop over the requested bundles: the message for a bundle that is
  installed, with its tracking, and the warning for an experimental bundle.  The
  result counts \<^verbatim>\<open>already_installed\<close>.
\<close>

fun already_installed_loop ::
    "install_env \<Rightarrow> string list \<Rightarrow> istate \<Rightarrow> int \<Rightarrow> istate \<times> int" where
  "already_installed_loop env [] st already_installed = (st, already_installed)"
| "already_installed_loop env (bundle # rest) st already_installed =
     (let (st1, n1) =
            (if is_installed_bundle (target st) bundle then
               (track_installed env bundle (log_event (Warn_already_installed bundle) st),
                already_installed + 1)
             else (st, already_installed));
          st2 = (case search_bundle_in_manifest (mom_manifests env) bundle of
                   None \<Rightarrow> st1
                 | Some file \<Rightarrow>
                     if is_experimental file then log_event (Warn_experimental bundle) st1
                     else st1)
      in already_installed_loop env rest st2 n1)"

text \<open>
  Modelled from the spec: \<^verbatim>\<open>filter_out_deleted_files\<close> ("drops records whose type is
  deleted"), \<^verbatim>\<open>filter_out_existing_files\<close> ("returns desired records whose path is not
  already present (by path+hash) in installed"), \<^verbatim>\<open>get_manifest_list_contentsize\<close> (the
  sum of \<^verbatim>\<open>contentsize\<close>) and \<^verbatim>\<open>read_subscriptions\<close> (the bundles installed on the
  system) are missing.
\<close>

definition filter_out_deleted_files :: "swupd_file list \<Rightarrow> swupd_file list" where
  "filter_out_deleted_files fl = filter (\<lambda>f. \<not> is_deleted f) fl"

definition filter_out_existing_files :: "swupd_file list \<Rightarrow> swupd_file list \<Rightarrow> swupd_file list" where
  "filter_out_existing_files desired installed =
     filter (\<lambda>f. \<not> list_ex (\<lambda>g. filename g = filename f \<and> hash g = hash f) installed) desired"

definition get_manifest_list_contentsize :: "manifest list \<Rightarrow> int" where
  "get_manifest_list_contentsize ms = sum_list (map contentsize ms)"

definition read_subscriptions :: "string list \<Rightarrow> string list" where
  "read_subscriptions fs0 = system_bundles fs0"

text \<open>
  The loop that checks the hash of every file of the plan that is in the staging area.
  A file that is not there is passed over; a file whose digest is not its hash is
  removed from the staging area, and the loop ends with an error when the removal
  fails.
\<close>

fun verify_staged_loop ::
    "install_env \<Rightarrow> swupd_file list \<Rightarrow> istate \<Rightarrow> swupd_code \<times> istate" where
  "verify_staged_loop env [] st = (SWUPD_OK, st)"
| "verify_staged_loop env (file # rest) st =
     (case map_of (staged st) (hash file) of
        None \<Rightarrow> verify_staged_loop env rest st
      | Some digest \<Rightarrow>
          (if digest \<noteq> hash file then
             (if swupd_rm_ret env (hash file) \<noteq> 0 then
                (SWUPD_COULDNT_REMOVE_FILE,
                 log_event (Error_msg ''could not remove bad file'')
                   (log_event (Warn_hash_check_failed (filename file))
                      (log_event (Verify_staged (filename file)) st)))
              else
                verify_staged_loop env rest
                  (log_event (Rm_staged (hash file))
                     (log_event (Warn_hash_check_failed (filename file))
                        (log_event (Verify_staged (filename file))
                           (st\<lparr>staged := filter (\<lambda>e. fst e \<noteq> hash file) (staged st)\<rparr>)))))
           else verify_staged_loop env rest (log_event (Verify_staged (filename file)) st)))"

definition skipped_file :: "install_env \<Rightarrow> swupd_file \<Rightarrow> bool" where
  "skipped_file env file \<longleftrightarrow> is_deleted file \<or> do_not_update file \<or> ignore env file"

text \<open>
  The first of the two loops over the plan: \<^verbatim>\<open>do_staging\<close> for every file that is not
  passed over; the first failure ends the installation with its code.  The loop
  returns the plan with the staging names that \<^verbatim>\<open>do_staging\<close> left in the records.

  Modelled from the spec: the effect of \<^verbatim>\<open>do_staging\<close> on the target tree ("for regular
  files, copy the staged content to the sidecar name; for directories, create the
  directory at its final name").
\<close>

definition add_path :: "string \<Rightarrow> string list \<Rightarrow> string list" where
  "add_path p fs0 = (if p \<in> set fs0 then fs0 else fs0 @ [p])"

fun staging_loop ::
    "install_env \<Rightarrow> swupd_file list \<Rightarrow> istate \<Rightarrow> swupd_code \<times> istate \<times> swupd_file list" where
  "staging_loop env [] st = (SWUPD_OK, st, [])"
| "staging_loop env (file # rest) st =
     (if skipped_file env file then
        (case staging_loop env rest st of (code, st', plan) \<Rightarrow> (code, st', file # plan))
      else
        (case do_staging env file of
           (ret, staging_name) \<Rightarrow>
             (if ret \<noteq> 0 then (SWUPD_OTHER ret, st, file # rest)
              else
                (case staging_loop env rest
                        (log_event (Staged (filename file))
                           (st\<lparr>target :=
                                 (if is_dir file then add_path (filename file) (target st)
                                  else (case staging_name of
                                          None \<Rightarrow> target st
                                        | Some s \<Rightarrow> add_path s (target st)))\<rparr>)) of
                   (code, st', plan) \<Rightarrow> (code, st', file\<lparr>staging := staging_name\<rparr> # plan)))))"

text \<open>
  The second loop: \<^verbatim>\<open>rename_staged_file_to_final\<close> for every file that is not passed
  over.  A record without a staging name that is not a directory is looked up in
  \<^verbatim>\<open>mom->files\<close> first.

  Modelled from the spec: \<^verbatim>\<open>search_file_in_manifest\<close> (the record of the path) and the
  effect of \<^verbatim>\<open>rename_staged_file_to_final\<close> ("rename each sidecar to its final name.
  Directories have no sidecar to rename") are missing.
\<close>

definition rename_staged_file_to_final :: "swupd_file option \<Rightarrow> string list \<Rightarrow> string list" where
  "rename_staged_file_to_final file fs0 =
     (case file of
        None \<Rightarrow> fs0
      | Some f \<Rightarrow>
          (if is_dir f then fs0
           else (case staging f of
                   None \<Rightarrow> fs0
                 | Some s \<Rightarrow>
                     if s \<in> set fs0 then add_path (filename f) (filter (\<lambda>p. p \<noteq> s) fs0)
                     else fs0)))"

fun rename_loop :: "install_env \<Rightarrow> swupd_file list \<Rightarrow> swupd_file list \<Rightarrow> istate \<Rightarrow> istate" where
  "rename_loop env mom_files [] st = st"
| "rename_loop env mom_files (file # rest) st =
     (if skipped_file env file then rename_loop env mom_files rest st
      else
        rename_loop env mom_files rest
          (log_event (Renamed (filename file))
             (st\<lparr>target :=
                   rename_staged_file_to_final
                     (if staging file = None \<and> \<not> is_dir file
                      then find (\<lambda>g. filename g = filename file) mom_files
                      else Some file)
                     (target st)\<rparr>)))"

text \<open>
  The code after the label \<^verbatim>\<open>out\<close>: the bundles of the plan that are now installed
  are counted, the requested ones are tracked, the totals are printed, and the flag
  for an invalid bundle turns the code 0 into \<open>SWUPD_INVALID_BUNDLE\<close>.
\<close>

fun count_installed_loop ::
    "install_env \<Rightarrow> string list \<Rightarrow> manifest list \<Rightarrow> istate \<Rightarrow> int \<Rightarrow> int \<Rightarrow>
     istate \<times> int \<times> int" where
  "count_installed_loop env bundles [] st bundles_installed dependencies_installed =
     (st, bundles_installed, dependencies_installed)"
| "count_installed_loop env bundles (m # rest) st bundles_installed dependencies_installed =
     (if is_installed_bundle (target st) (component m) then
        (if component m \<in> set bundles then
           count_installed_loop env bundles rest (track_installed env (component m) st)
             (bundles_installed + 1) dependencies_installed
         else
           count_installed_loop env bundles rest st bundles_installed
             (dependencies_installed + 1))
      else count_installed_loop env bundles rest st bundles_installed dependencies_installed)"

definition print_totals :: "swupd_code \<Rightarrow> int \<Rightarrow> int \<Rightarrow> int \<Rightarrow> int \<Rightarrow> istate \<Rightarrow> istate" where
  "print_totals ret bundles_requested already_installed bundles_installed dependencies_installed st =
     (let bundles_failed =
            (if ret \<noteq> SWUPD_OK \<and> bundles_installed \<noteq> 0
             then bundles_requested - already_installed
             else bundles_requested - bundles_installed - already_installed);
          st1 = (if bundles_failed > 0 then
                   log_event (Print_failed_to_install bundles_failed
                                (bundles_requested - already_installed)) st
                 else if bundles_installed > 0 then
                   log_event (Print_successfully_installed bundles_installed) st
                 else st);
          st2 = (if dependencies_installed > 0
                 then log_event (Print_dependencies_installed dependencies_installed) st1
                 else st1)
      in if already_installed > 0 then log_event (Print_already_installed already_installed) st2
         else st2)"

definition install_out ::
    "install_env \<Rightarrow> string list \<Rightarrow> manifest list \<Rightarrow> int \<Rightarrow> bool \<Rightarrow> swupd_code \<Rightarrow> istate \<Rightarrow>
     swupd_code \<times> istate" where
  "install_out env bundles to_install_bundles already_installed invalid_bundle_provided ret st =
     (case count_installed_loop env bundles to_install_bundles st 0 0 of
        (st1, bundles_installed, dependencies_installed) \<Rightarrow>
          (if invalid_bundle_provided \<and> ret = SWUPD_OK then SWUPD_INVALID_BUNDLE else ret,
           print_totals ret (int (length bundles)) already_installed bundles_installed
             dependencies_installed st1))"

text \<open>Steps 4 to 7 of \<^verbatim>\<open>install_bundles\<close>, from the download to the scripts.\<close>

definition install_files ::
    "install_env \<Rightarrow> swupd_file list \<Rightarrow> swupd_file list \<Rightarrow> istate \<Rightarrow> swupd_code \<times> istate" where
  "install_files env mom_files to_install_files st =
     (let st1 = log_event Rm_download_dir st;
          st2 = (if length to_install_files > 10 then log_event Download_packs st1 else st1)
      in case download_fullfiles env to_install_files (staged st2) of
           (ret, staged') \<Rightarrow>
             (let st3 = log_event (Download_fullfiles (map filename to_install_files))
                          (st2\<lparr>staged := staged'\<rparr>)
              in if ret \<noteq> 0 then (SWUPD_OTHER \<bar>ret\<bar>, st3)
                 else
                   (case verify_staged_loop env to_install_files st3 of
                      (code, st4) \<Rightarrow>
                        (if code \<noteq> SWUPD_OK then (code, st4)
                         else
                           (case staging_loop env to_install_files st4 of
                              (code', st5, plan) \<Rightarrow>
                                (if code' \<noteq> SWUPD_OK then (code', st5)
                                 else
                                   (SWUPD_OK,
                                    log_event Scripts_run
                                      (log_event Sync
                                         (rename_loop env mom_files plan st5)))))))))"

text \<open>
  \<^verbatim>\<open>install_bundles\<close>, called with the subscriptions \<open>subs\<close>.  The result is the exit
  code and the system that the function leaves.
\<close>

definition install_bundles ::
    "nat \<Rightarrow> install_env \<Rightarrow> string list \<Rightarrow> string list \<Rightarrow> istate \<Rightarrow> (swupd_code \<times> istate) option" where
  "install_bundles fuel env bundles subs st =
     (case add_subscriptions fuel env (target st) bundles subs False 0 of
        None \<Rightarrow> None
      | Some (ret, subs') \<Rightarrow>
          (case already_installed_loop env bundles st 0 of
             (st1, already_installed) \<Rightarrow>
               Some
                (if ret AND add_sub_NEW = 0 then
                   install_out env bundles [] already_installed False
                     (if ret AND add_sub_ERR \<noteq> 0 then SWUPD_COULDNT_LOAD_MANIFEST
                      else if ret AND add_sub_BADNAME \<noteq> 0 then SWUPD_INVALID_BUNDLE
                      else SWUPD_OK) st1
                 else
                   (let invalid_bundle_provided = (ret AND add_sub_BADNAME \<noteq> 0);
                        to_install_bundles = recurse_manifest env subs'
                    in if to_install_bundles = [] then
                         install_out env bundles [] already_installed invalid_bundle_provided
                           SWUPD_RECURSE_MANIFEST
                           (log_event (Error_msg ''Cannot load to install bundles'') st1)
                       else
                         (let installed_bundles =
                                recurse_manifest env (read_subscriptions (target st1))
                          in if installed_bundles = [] then
                               install_out env bundles to_install_bundles already_installed
                                 invalid_bundle_provided SWUPD_RECURSE_MANIFEST
                                 (log_event (Error_msg ''Cannot load installed bundles'') st1)
                             else
                               (let mom_files = consolidate_files_from_bundles installed_bundles;
                                    installed_files = filter_out_deleted_files mom_files;
                                    to_install_files =
                                      filter_out_existing_files
                                        (filter_out_deleted_files
                                           (consolidate_files_from_bundles to_install_bundles))
                                        installed_files
                                in if \<not> skip_diskspace_check env \<and>
                                      (fudge_exceeds env
                                         (get_manifest_list_contentsize to_install_bundles)
                                         (available_space env)
                                       \<or> available_space env < 0) then
                                     install_out env bundles to_install_bundles already_installed
                                       invalid_bundle_provided SWUPD_DISK_SPACE_ERROR
                                       (log_event Error_disk_space st1)
                                   else
                                     (case install_files env mom_files to_install_files st1 of
                                        (code, st2) \<Rightarrow>
                                          install_out env bundles to_install_bundles
                                            already_installed invalid_bundle_provided code st2)))))))"

section \<open>Notions for the properties of remove_bundles\<close>

text \<open>
  The exit code that goes with each message of \<^verbatim>\<open>remove_bundles\<close> that skips a bundle:
  the assignment to \<^verbatim>\<open>ret_code\<close> beside the message in the source.
\<close>

fun skip_code :: "event \<Rightarrow> swupd_code option" where
  "skip_code Warn_os_core_skipped = Some SWUPD_REQUIRED_BUNDLE_ERROR"
| "skip_code (Warn_invalid_skipped b) = Some SWUPD_INVALID_BUNDLE"
| "skip_code (Warn_not_installed_skipped b) = Some SWUPD_BUNDLE_NOT_TRACKED"
| "skip_code (Error_required_skipped b n) = Some SWUPD_REQUIRED_BUNDLE_ERROR"
| "skip_code e = None"

definition skipped_codes :: "event list \<Rightarrow> swupd_code list" where
  "skipped_codes evs = List.map_filter skip_code evs"

text \<open>
  The invariant of the loop of \<^verbatim>\<open>remove_bundles\<close>: \<^verbatim>\<open>bad\<close> counts the skipped bundles and
  \<^verbatim>\<open>ret_code\<close> is the code of the bundle skipped last.
\<close>

definition accounted :: "rstate \<Rightarrow> bool" where
  "accounted st \<longleftrightarrow>
     bad st = int (length (skipped_codes (events st))) \<and>
     ret_code st = (if skipped_codes (events st) = [] then SWUPD_OK
                    else last (skipped_codes (events st)))"

text \<open>
  The includes of the loaded manifests have no cycle: a rank falls along every include
  from a bundle to another.
\<close>

definition ranked_includes :: "(string \<Rightarrow> nat) \<Rightarrow> manifest list \<Rightarrow> bool" where
  "ranked_includes rank subm \<longleftrightarrow>
     (\<forall>m \<in> set subm. \<forall>i \<in> set (includes_list m). i \<noteq> component m \<longrightarrow> rank (component m) < rank i)"

text \<open>Some manifest of the list has a record, or a record that is not deleted, for a path.\<close>

definition has_record :: "manifest list \<Rightarrow> string \<Rightarrow> bool" where
  "has_record ms p = list_ex (\<lambda>m. list_ex (\<lambda>f. filename f = p) (files m)) ms"

definition has_live_record :: "manifest list \<Rightarrow> string \<Rightarrow> bool" where
  "has_live_record ms p =
     list_ex (\<lambda>m. list_ex (\<lambda>f. filename f = p \<and> \<not> is_deleted f) (files m)) ms"

text \<open>The list that \<^verbatim>\<open>remove_bundles\<close> hands to \<^verbatim>\<open>remove_files_from_fs\<close>.\<close>

definition unlink_list :: "rstate \<Rightarrow> swupd_file list" where
  "unlink_list st = list_filter_common_elements
                 (consolidate_files_from_bundles (bundles_to_remove st))
                 (consolidate_files_from_bundles (submanifests st))
                 filter_files_to_delete"

text \<open>The names of the manifests that include some bundle.\<close>

definition with_includes :: "manifest list \<Rightarrow> string set" where
  "with_includes subm = {component b | b. b \<in> set subm \<and> includes_list b \<noteq> []}"

text \<open>
  With \<^verbatim>\<open>--force\<close> the manifests of the bundles that require a removed bundle are removed
  too; os-core is out of their reach when its manifest includes nothing.
\<close>

definition os_core_safe :: "remove_env \<Rightarrow> bool" where
  "os_core_safe env \<longleftrightarrow>
     \<not> cmdline_option_force env \<or>
     list_all (\<lambda>m. component m = ''os-core'' \<longrightarrow> includes_list m = [])
       (loaded_submanifests env)"

section \<open>A sample system\<close>

text \<open>
  Three bundles: os-core, vim, and editors, which includes vim; \<^verbatim>\<open>/usr/bin/sh\<close> is a file
  of os-core and of vim.
\<close>

definition sample_file :: "string \<Rightarrow> string \<Rightarrow> swupd_file" where
  "sample_file name h =
     \<lparr>filename = name, hash = h, is_deleted = False, is_dir = False, do_not_update = False,
      is_experimental = False, last_change = 10, staging = None\<rparr>"

definition sample_mom :: "swupd_file list" where
  "sample_mom = [sample_file ''os-core'' ''m0'', sample_file ''editors'' ''m1'',
                 sample_file ''vim'' ''m2'']"

definition os_core_manifest :: manifest where
  "os_core_manifest =
     \<lparr>component = ''os-core'', includes_list = [], optional = [],
      files = [sample_file ''/usr/share/clear/bundles/os-core'' ''a0'',
               sample_file ''/usr/bin/sh'' ''a1''],
      contentsize = 100\<rparr>"

definition editors_manifest :: manifest where
  "editors_manifest =
     \<lparr>component = ''editors'', includes_list = [''vim''], optional = [],
      files = [sample_file ''/usr/share/clear/bundles/editors'' ''b0'',
               sample_file ''/usr/bin/ed'' ''b1''],
      contentsize = 200\<rparr>"

definition vim_manifest :: manifest where
  "vim_manifest =
     \<lparr>component = ''vim'', includes_list = [], optional = [],
      files = [sample_file ''/usr/share/clear/bundles/vim'' ''c0'',
               sample_file ''/usr/bin/vim'' ''c1'',
               sample_file ''/usr/bin/sh'' ''a1''],
      contentsize = 300\<rparr>"

definition sample_fs :: "string list" where
  "sample_fs = [''/usr/share/clear/bundles/os-core'', ''/usr/bin/sh'',
                ''/usr/share/clear/bundles/editors'', ''/usr/bin/ed'',
                ''/usr/share/clear/bundles/vim'', ''/usr/bin/vim'']"

definition bare_fs :: "string list" where
  "bare_fs = [''/usr/share/clear/bundles/os-core'', ''/usr/bin/sh'']"

definition sample_remove_env :: remove_env where
  "sample_remove_env =
     \<lparr>init_ret = 0, current_version = 10, current_mom = Some sample_mom,
      loaded_submanifests = [os_core_manifest, editors_manifest, vim_manifest],
      cmdline_option_force = False\<rparr>"

definition sample_rank :: "string \<Rightarrow> nat" where
  "sample_rank name = (if name = ''vim'' then 1 else 0)"

section \<open>Notions for the properties of install_bundles\<close>

text \<open>The kinds of events that the properties tell apart.\<close>

fun is_staged :: "event \<Rightarrow> bool" where
  "is_staged (Staged p) = True"
| "is_staged e = False"

fun is_renamed :: "event \<Rightarrow> bool" where
  "is_renamed (Renamed p) = True"
| "is_renamed e = False"

fun is_download :: "event \<Rightarrow> bool" where
  "is_download Download_packs = True"
| "is_download (Download_fullfiles fl) = True"
| "is_download Rm_download_dir = True"
| "is_download e = False"

fun is_untracked :: "event \<Rightarrow> bool" where
  "is_untracked (Untracked b) = True"
| "is_untracked e = False"

fun is_unlinked :: "event \<Rightarrow> bool" where
  "is_unlinked (Unlinked p) = True"
| "is_unlinked e = False"

text \<open>
  The events of the parts of \<^verbatim>\<open>install_bundles\<close> that do not touch the files of the
  plan: the first loop over the requested bundles, the messages of the early exits,
  and the code after the label \<^verbatim>\<open>out\<close>.
\<close>

fun is_bookkeeping :: "event \<Rightarrow> bool" where
  "is_bookkeeping (Warn_already_installed b) = True"
| "is_bookkeeping (Warn_experimental b) = True"
| "is_bookkeeping (Tracked b) = True"
| "is_bookkeeping (Track_failed b) = True"
| "is_bookkeeping (Error_msg m) = True"
| "is_bookkeeping Error_disk_space = True"
| "is_bookkeeping (Print_failed_to_install a b) = True"
| "is_bookkeeping (Print_successfully_installed a) = True"
| "is_bookkeeping (Print_dependencies_installed a) = True"
| "is_bookkeeping (Print_already_installed a) = True"
| "is_bookkeeping e = False"

text \<open>The events of the download and of the check of the staging area.\<close>

fun is_preflight :: "event \<Rightarrow> bool" where
  "is_preflight Rm_download_dir = True"
| "is_preflight Download_packs = True"
| "is_preflight (Download_fullfiles fl) = True"
| "is_preflight (Verify_staged p) = True"
| "is_preflight (Warn_hash_check_failed p) = True"
| "is_preflight (Rm_staged h) = True"
| "is_preflight (Error_msg m) = True"
| "is_preflight e = False"



text \<open>A state extends the trace of another by events of one kind.\<close>

definition extends :: "(event \<Rightarrow> bool) \<Rightarrow> istate \<Rightarrow> istate \<Rightarrow> bool" where
  "extends P st st' \<longleftrightarrow> (\<exists>evs. trace st' = trace st @ evs \<and> list_all P evs)"

text \<open>
  An event of the bookkeeping; a tracking file is created only for a bundle that is
  installed in the given target tree.
\<close>

definition tracked_ok :: "string list \<Rightarrow> event \<Rightarrow> bool" where
  "tracked_ok fs0 e \<longleftrightarrow>
     is_bookkeeping e \<and> (case e of Tracked b \<Rightarrow> is_installed_bundle fs0 b | _ \<Rightarrow> True)"

text \<open>An event that is no staging, no renaming and no sync.\<close>

definition quiet :: "event \<Rightarrow> bool" where
  "quiet e \<longleftrightarrow> \<not> is_staged e \<and> \<not> is_renamed e \<and> e \<noteq> Sync"



text \<open>
  The collaborators of the sample system: every manifest loads, the fetcher delivers
  the content that the hash names, and every file operation succeeds.  The comparison
  of the required space is the exact one, which agrees with the comparison in double
  precision on the sizes used here.
\<close>

definition sample_manifest_of :: "string \<Rightarrow> manifest option" where
  "sample_manifest_of name =
     (if name = ''os-core'' then Some os_core_manifest
      else if name = ''editors'' then Some editors_manifest
      else if name = ''vim'' then Some vim_manifest
      else None)"

definition sample_install_env :: install_env where
  "sample_install_env =
     \<lparr>mom_manifests = sample_mom,
      load_manifest = (\<lambda>f. sample_manifest_of (filename f)),
      recurse_manifest = List.map_filter sample_manifest_of,
      skip_optional_bundles = False,
      skip_diskspace_check = False,
      available_space = 1000000,
      fudge_exceeds = (\<lambda>bundle_size fs_free. 10 * fs_free < 11 * bundle_size),
      download_fullfiles =
        (\<lambda>fl st. (0, st @ map (\<lambda>f. (hash f, hash f))
                            (filter (\<lambda>f. map_of st (hash f) = None) fl))),
      swupd_rm_ret = (\<lambda>p. 0),
      do_staging = (\<lambda>f. (0, if is_dir f then None else Some (filename f @ ''.update''))),
      ignore = (\<lambda>f. False),
      rm_rf_ret = 0, copy_all_ret = 0, chmod_ret = 0,
      open_fails = (\<lambda>b. False)\<rparr>"

definition bare_system :: istate where
  "bare_system = \<lparr>target = bare_fs, staged = [], tracked = [], trace = []\<rparr>"


text \<open>
  A trace of \<^verbatim>\<open>remove_bundles\<close> in which every tracking file is removed before the
  first file is unlinked.
\<close>

definition untracks_first :: "event list \<Rightarrow> bool" where
  "untracks_first evs \<longleftrightarrow>
     (\<exists>a b. evs = a @ b \<and> list_all (\<lambda>e. \<not> is_unlinked e) a \<and>
            list_all (\<lambda>e. \<not> is_untracked e) b)"

text \<open>Every tracking file of a trace is created for a bundle installed in the target tree.\<close>

definition tracks_installed :: "string list \<Rightarrow> event list \<Rightarrow> bool" where
  "tracks_installed fs0 evs \<longleftrightarrow>
     list_all (\<lambda>e. case e of Tracked b \<Rightarrow> is_installed_bundle fs0 b | _ \<Rightarrow> True) evs"


text \<open>
  The bare system with a file in the staging area whose name is the hash \<^verbatim>\<open>c1\<close> and whose
  content has another digest.
\<close>

definition corrupt_system :: istate where
  "corrupt_system = bare_system\<lparr>staged := [(''c1'', ''bad'')]\<rparr>"

section \<open>Lemmas about remove_bundles\<close>

lemma skipped_codes_append: "skipped_codes (xs @ ys) = skipped_codes xs @ skipped_codes ys"
  by (simp add: skipped_codes_def map_filter_def)

lemma skipped_codes_single:
  "skipped_codes [] = []"
  "skipped_codes (e # es) = (case skip_code e of None \<Rightarrow> [] | Some c \<Rightarrow> [c]) @ skipped_codes es"
  by (simp_all add: skipped_codes_def map_filter_def split: option.splits)

lemma emit_fields [simp]:
  "events (emit e st) = events st @ [e]"
  "ret_code (emit e st) = ret_code st" "bad (emit e st) = bad st" "total (emit e st) = total st"
  "submanifests (emit e st) = submanifests st" "bundles_to_remove (emit e st) = bundles_to_remove st"
  "fs (emit e st) = fs st" "tracking (emit e st) = tracking st"
  by (simp_all add: emit_def)

lemma remove_tracked_fields [simp]:
  "events (remove_tracked b st) = events st @ [Untracked b]"
  "ret_code (remove_tracked b st) = ret_code st" "bad (remove_tracked b st) = bad st"
  "total (remove_tracked b st) = total st"
  "submanifests (remove_tracked b st) = submanifests st"
  "bundles_to_remove (remove_tracked b st) = bundles_to_remove st"
  "fs (remove_tracked b st) = fs st"
  "tracking (remove_tracked b st) = filter (\<lambda>n. n \<noteq> b) (tracking st)"
  by (simp_all add: remove_tracked_def)

lemma move_to_remove_fields [simp]:
  "events (move_to_remove b st) = events st"
  "ret_code (move_to_remove b st) = ret_code st" "bad (move_to_remove b st) = bad st"
  "total (move_to_remove b st) = total st"
  "fs (move_to_remove b st) = fs st"
  "tracking (move_to_remove b st) = tracking st"
  by (simp_all add: move_to_remove_def split: prod.splits)

lemma skip_bundle_fields [simp]:
  "events (skip_bundle e c st) = events st @ [e]"
  "ret_code (skip_bundle e c st) = c" "bad (skip_bundle e c st) = bad st + 1"
  "total (skip_bundle e c st) = total st"
  "submanifests (skip_bundle e c st) = submanifests st"
  "bundles_to_remove (skip_bundle e c st) = bundles_to_remove st"
  "fs (skip_bundle e c st) = fs st" "tracking (skip_bundle e c st) = tracking st"
  by (simp_all add: skip_bundle_def)

lemma force_fold_fields:
  "ret_code (fold (\<lambda>dep s. remove_tracked dep (move_to_remove dep s)) ds st) = ret_code st \<and>
   bad (fold (\<lambda>dep s. remove_tracked dep (move_to_remove dep s)) ds st) = bad st \<and>
   total (fold (\<lambda>dep s. remove_tracked dep (move_to_remove dep s)) ds st) = total st \<and>
   fs (fold (\<lambda>dep s. remove_tracked dep (move_to_remove dep s)) ds st) = fs st \<and>
   skipped_codes (events (fold (\<lambda>dep s. remove_tracked dep (move_to_remove dep s)) ds st))
     = skipped_codes (events st)"
  by (induction ds arbitrary: st) (simp_all add: skipped_codes_append skipped_codes_single)

lemma remove_body_accounted:
  assumes "remove_body fuel env mom b bs st = Some st'" and "accounted st"
  shows "accounted st' \<and> total st' = total st \<and> fs st' = fs st"
  using assms
  by (auto simp: remove_body_def accounted_def skipped_codes_append skipped_codes_single
        force_fold_fields split: if_splits option.splits)

lemma remove_loop_accounted:
  "remove_loop fuel env mom bundles st = Some st' \<Longrightarrow> accounted st \<Longrightarrow>
   accounted st' \<and> total st' = total st + int (length bundles) \<and> fs st' = fs st"
proof (induction bundles arbitrary: st)
  case Nil
  then show ?case by simp
next
  case (Cons b bs)
  from Cons.prems obtain st1 where b: "remove_body fuel env mom b (b # bs) st = Some st1"
    and l: "remove_loop fuel env mom bs (st1\<lparr>total := total st1 + 1\<rparr>) = Some st'"
    by (auto split: option.splits)
  from remove_body_accounted[OF b Cons.prems(2)]
  have a1: "accounted st1" "total st1 = total st" "fs st1 = fs st" by simp_all
  then have "accounted (st1\<lparr>total := total st1 + 1\<rparr>)" by (simp add: accounted_def)
  from Cons.IH[OF l this] a1 show ?case by simp
qed

lemma ranked_includesD:
  "ranked_includes rank subm \<Longrightarrow> m \<in> set subm \<Longrightarrow> i \<in> set (includes_list m) \<Longrightarrow>
   i \<noteq> component m \<Longrightarrow> rank (component m) < rank i"
  by (simp add: ranked_includes_def)

lemma required_by_includes_total:
  assumes walk: "\<And>acc. \<exists>r. required_by_walk n subm excl (component b) subm acc = Some r"
  shows "\<exists>r. required_by_includes (Suc n) subm excl name b incs acc = Some r"
proof (induction incs arbitrary: acc)
  case Nil
  show ?case by simp
next
  case (Cons i incs)
  show ?case
  proof (cases "i = name")
    case False
    with Cons.IH show ?thesis by simp
  next
    case True
    obtain r1 where r1: "required_by_walk n subm excl (component b) subm
        (if component b \<notin> set excl then acc @ [component b] else acc) = Some r1"
      using walk by blast
    from Cons.IH[of r1] obtain r2
      where "required_by_includes (Suc n) subm excl name b incs r1 = Some r2" by blast
    with True r1 show ?thesis by simp
  qed
qed

lemma required_by_includes_nomatch:
  "name \<notin> set incs \<Longrightarrow> required_by_includes fuel subm excl name b incs acc = Some acc"
  by (induction incs) auto

lemma required_by_walk_from_includes:
  assumes "\<And>b acc. b \<in> set bs \<Longrightarrow> component b \<noteq> name \<Longrightarrow>
             \<exists>r. required_by_includes fuel subm excl name b (includes_list b) acc = Some r"
  shows "\<exists>r. required_by_walk fuel subm excl name bs acc = Some r"
  using assms
proof (induction bs arbitrary: acc)
  case Nil
  show ?case by simp
next
  case (Cons b bs)
  show ?case
  proof (cases "component b = name")
    case True
    with Cons show ?thesis by simp
  next
    case False
    from Cons.prems[of b acc] False obtain r1
      where r1: "required_by_includes fuel subm excl name b (includes_list b) acc = Some r1"
      by auto
    from Cons.IH[of r1] Cons.prems obtain r2
      where "required_by_walk fuel subm excl name bs r1 = Some r2" by auto
    with False r1 show ?thesis by simp
  qed
qed

lemma required_by_walk_total:
  assumes acyc: "ranked_includes rank subm"
  shows "rank name \<le> fuel \<Longrightarrow> set bs \<subseteq> set subm \<Longrightarrow>
         \<exists>r. required_by_walk fuel subm excl name bs acc = Some r"
proof (induction fuel arbitrary: name bs acc)
  case 0
  show ?case
  proof (rule required_by_walk_from_includes)
    fix b acc'
    assume b: "b \<in> set bs" and ne: "component b \<noteq> name"
    have "name \<notin> set (includes_list b)"
    proof
      assume i: "name \<in> set (includes_list b)"
      from b "0.prems" have "b \<in> set subm" by auto
      from ranked_includesD[OF acyc this i] ne have "rank (component b) < rank name"
        by simp
      with "0.prems" show False by simp
    qed
    then show "\<exists>r. required_by_includes 0 subm excl name b (includes_list b) acc' = Some r"
      by (simp add: required_by_includes_nomatch)
  qed
next
  case (Suc n)
  show ?case
  proof (rule required_by_walk_from_includes)
    fix b acc'
    assume b: "b \<in> set bs" and ne: "component b \<noteq> name"
    show "\<exists>r. required_by_includes (Suc n) subm excl name b (includes_list b) acc' = Some r"
    proof (cases "name \<in> set (includes_list b)")
      case False
      then show ?thesis by (simp add: required_by_includes_nomatch)
    next
      case True
      from b Suc.prems have "b \<in> set subm" by auto
      from ranked_includesD[OF acyc this True] ne have "rank (component b) < rank name"
        by simp
      with Suc.prems have "rank (component b) \<le> n" by simp
      then have "\<And>acc. \<exists>r. required_by_walk n subm excl (component b) subm acc = Some r"
        using Suc.IH[of "component b" subm] by simp
      then show ?thesis by (rule required_by_includes_total)
    qed
  qed
qed

lemma required_by_total:
  "ranked_includes rank subm \<Longrightarrow> rank name \<le> fuel \<Longrightarrow>
   \<exists>r. required_by fuel subm excl name = Some r"
  using required_by_walk_total[of rank subm name fuel subm excl "[]"]
  by (auto simp: required_by_def)

lemma ranked_includes_subset:
  "ranked_includes rank subm \<Longrightarrow> set subm' \<subseteq> set subm \<Longrightarrow> ranked_includes rank subm'"
  unfolding ranked_includes_def by (meson subsetD)

lemma move_to_remove_subset: "set (submanifests (move_to_remove b st)) \<subseteq> set (submanifests st)"
  using set_remove1_subset[of _ "submanifests st"]
  by (auto simp: move_to_remove_def list_move_item_def split: option.splits)

lemma force_fold_subset:
  "set (submanifests (fold (\<lambda>dep s. remove_tracked dep (move_to_remove dep s)) ds st))
     \<subseteq> set (submanifests st)"
proof (induction ds arbitrary: st)
  case Nil
  show ?case by simp
next
  case (Cons d ds)
  have "set (submanifests (remove_tracked d (move_to_remove d st))) \<subseteq> set (submanifests st)"
    using move_to_remove_subset[of d st] by simp
  with Cons.IH[of "remove_tracked d (move_to_remove d st)"] show ?case by auto
qed

lemma remove_body_cases:
  assumes r: "remove_body fuel env mom b bs st = Some st'"
  obtains (skip) e c where "skip_code e = Some c" "st' = skip_bundle e c st"
    | (plain) "required_by fuel (submanifests st) bs b = Some []"
        "st' = remove_tracked b (emit (Info_removing_bundle b) (move_to_remove b st))"
    | (force) ds where "required_by fuel (submanifests st) bs b = Some ds" "cmdline_option_force env"
        "st' = remove_tracked b (emit (Info_removing_bundle b) (move_to_remove b
                 (fold (\<lambda>dep s. remove_tracked dep (move_to_remove dep s)) ds
                    (emit (Info_force_used b) st))))"
proof (cases "b = ''os-core''")
  case True
  with r have "st' = skip_bundle Warn_os_core_skipped SWUPD_REQUIRED_BUNDLE_ERROR st"
    by (simp add: remove_body_def)
  then show ?thesis using skip[of Warn_os_core_skipped] by simp
next
  case nc: False
  show ?thesis
  proof (cases "search_bundle_in_manifest mom b = None")
    case True
    with r nc have "st' = skip_bundle (Warn_invalid_skipped b) SWUPD_INVALID_BUNDLE st"
      by (simp add: remove_body_def)
    then show ?thesis using skip[of "Warn_invalid_skipped b"] by simp
  next
    case valid: False
    show ?thesis
    proof (cases "is_installed_bundle (fs st) b")
      case False
      with r nc valid
      have "st' = skip_bundle (Warn_not_installed_skipped b) SWUPD_BUNDLE_NOT_TRACKED st"
        by (simp add: remove_body_def)
      then show ?thesis using skip[of "Warn_not_installed_skipped b"] by simp
    next
      case inst: True
      from r nc valid inst obtain ds where ds: "required_by fuel (submanifests st) bs b = Some ds"
        by (cases "required_by fuel (submanifests st) bs b") (simp_all add: remove_body_def)
      show ?thesis
      proof (cases "ds = []")
        case True
        with r nc valid inst ds show ?thesis using plain by (simp add: remove_body_def)
      next
        case ne: False
        show ?thesis
        proof (cases "cmdline_option_force env")
          case True
          with r nc valid inst ds ne show ?thesis using force[of ds] by (simp add: remove_body_def)
        next
          case False
          with r nc valid inst ds ne
          have "st' = skip_bundle (Error_required_skipped b (length ds)) SWUPD_REQUIRED_BUNDLE_ERROR st"
            by (simp add: remove_body_def)
          then show ?thesis using skip[of "Error_required_skipped b (length ds)"] by simp
        qed
      qed
    qed
  qed
qed

lemma remove_body_subset:
  assumes "remove_body fuel env mom b bs st = Some st'"
  shows "set (submanifests st') \<subseteq> set (submanifests st)"
  using assms
proof (cases rule: remove_body_cases)
  case (skip e c)
  then show ?thesis by simp
next
  case plain
  then show ?thesis using move_to_remove_subset[of b st] by simp
next
  case (force ds)
  let ?X = "fold (\<lambda>dep s. remove_tracked dep (move_to_remove dep s)) ds (emit (Info_force_used b) st)"
  have "set (submanifests ?X) \<subseteq> set (submanifests (emit (Info_force_used b) st))"
    by (rule force_fold_subset)
  moreover have "set (submanifests (move_to_remove b ?X)) \<subseteq> set (submanifests ?X)"
    by (rule move_to_remove_subset)
  ultimately have "set (submanifests (move_to_remove b ?X)) \<subseteq> set (submanifests st)"
    by simp
  with force(3) show ?thesis by simp
qed

lemma remove_body_total:
  assumes "ranked_includes rank (submanifests st)" and "rank b \<le> fuel"
  shows "\<exists>st'. remove_body fuel env mom b bs st = Some st'"
proof -
  from required_by_total[OF assms, of bs] obtain r
    where "required_by fuel (submanifests st) bs b = Some r" by blast
  then show ?thesis by (simp add: remove_body_def)
qed

lemma remove_loop_total:
  assumes "\<forall>b \<in> set bundles. rank b \<le> fuel"
  shows "ranked_includes rank (submanifests st) \<Longrightarrow>
         \<exists>st'. remove_loop fuel env mom bundles st = Some st'"
  using assms
proof (induction bundles arbitrary: st)
  case Nil
  show ?case by simp
next
  case (Cons b bs)
  from remove_body_total[of rank st b fuel env mom "b # bs"] Cons.prems obtain st1
    where b: "remove_body fuel env mom b (b # bs) st = Some st1" by auto
  have "ranked_includes rank (submanifests (st1\<lparr>total := total st1 + 1\<rparr>))"
    using ranked_includes_subset[OF Cons.prems(1) remove_body_subset[OF b]] by simp
  moreover from Cons.prems(2) have "\<forall>b \<in> set bs. rank b \<le> fuel" by simp
  ultimately obtain st' where
    "remove_loop fuel env mom bs (st1\<lparr>total := total st1 + 1\<rparr>) = Some st'"
    using Cons.IH by blast
  with b show ?case by simp
qed

lemma collision_winner_cases: "collision_winner a b = a \<or> collision_winner a b = b"
  by (simp add: collision_winner_def)

lemma collision_winner_live:
  "\<not> is_deleted a \<or> \<not> is_deleted b \<Longrightarrow> \<not> is_deleted (collision_winner a b)"
  by (auto simp: collision_winner_def)

lemma collision_winner_filename:
  "filename a = filename b \<Longrightarrow> filename (collision_winner a b) = filename a"
  by (simp add: collision_winner_def)

lemma resolve_collisions_subset: "set (resolve_collisions xs) \<subseteq> set xs"
proof (induction xs rule: resolve_collisions.induct)
  case (1 a b rest)
  show ?case
  proof (cases "filename a = filename b")
    case True
    with 1 collision_winner_cases[of a b] show ?thesis by auto
  next
    case False
    with 1 show ?thesis by auto
  qed
qed simp_all

lemma winner_keeps_live:
  assumes "\<exists>f \<in> set (a # b # rest). filename f = p \<and> \<not> is_deleted f"
    and "filename a = filename b"
  shows "\<exists>f \<in> set (collision_winner a b # rest). filename f = p \<and> \<not> is_deleted f"
proof -
  from assms(1) obtain f where f: "f \<in> set (a # b # rest)" "filename f = p" "\<not> is_deleted f"
    by blast
  show ?thesis
  proof (cases "f \<in> set rest")
    case True
    with f show ?thesis by auto
  next
    case False
    with f have ab: "f = a \<or> f = b" by auto
    with f have "\<not> is_deleted a \<or> \<not> is_deleted b" by auto
    then have "\<not> is_deleted (collision_winner a b)" by (rule collision_winner_live)
    moreover have "filename (collision_winner a b) = p"
      using ab f(2) assms(2) collision_winner_filename[OF assms(2)] by auto
    ultimately show ?thesis by auto
  qed
qed

lemma resolve_collisions_live:
  "\<exists>f \<in> set xs. filename f = p \<and> \<not> is_deleted f \<Longrightarrow>
   \<exists>g \<in> set (resolve_collisions xs). filename g = p \<and> \<not> is_deleted g"
proof (induction xs rule: resolve_collisions.induct)
  case (1 a b rest)
  show ?case
  proof (cases "filename a = filename b")
    case True
    from winner_keeps_live[OF "1.prems" True] "1.IH"(1)[OF True] True show ?thesis by simp
  next
    case False
    show ?thesis
    proof (cases "filename a = p \<and> \<not> is_deleted a")
      case True
      with False show ?thesis by auto
    next
      case na: False
      with "1.prems" have "\<exists>f \<in> set (b # rest). filename f = p \<and> \<not> is_deleted f" by auto
      from "1.IH"(2)[OF False this] False show ?thesis by auto
    qed
  qed
qed simp_all

lemma consolidate_live:
  "(\<exists>g \<in> set (consolidate_files_from_bundles ms). filename g = p \<and> \<not> is_deleted g)
     \<longleftrightarrow> has_live_record ms p"
proof
  assume "\<exists>g \<in> set (consolidate_files_from_bundles ms). filename g = p \<and> \<not> is_deleted g"
  then obtain g where g: "g \<in> set (resolve_collisions (sort_key filename (concat (map files ms))))"
    "filename g = p" "\<not> is_deleted g"
    by (auto simp: consolidate_files_from_bundles_def)
  from g(1) resolve_collisions_subset have "g \<in> set (concat (map files ms))" by fastforce
  with g show "has_live_record ms p"
    by (auto simp: has_live_record_def list_ex_iff)
next
  assume "has_live_record ms p"
  then have "\<exists>f \<in> set (sort_key filename (concat (map files ms))). filename f = p \<and> \<not> is_deleted f"
    by (auto simp: has_live_record_def list_ex_iff)
  from resolve_collisions_live[OF this] show
    "\<exists>g \<in> set (consolidate_files_from_bundles ms). filename g = p \<and> \<not> is_deleted g"
    by (simp add: consolidate_files_from_bundles_def)
qed

lemma consolidate_record:
  "g \<in> set (consolidate_files_from_bundles ms) \<Longrightarrow> has_record ms (filename g)"
proof -
  assume "g \<in> set (consolidate_files_from_bundles ms)"
  with resolve_collisions_subset have "g \<in> set (concat (map files ms))"
    by (fastforce simp: consolidate_files_from_bundles_def)
  then show ?thesis by (auto simp: has_record_def list_ex_iff)
qed

lemma strcmp_eq_0 [simp]: "strcmp a b = 0 \<longleftrightarrow> a = b"
  by (simp add: strcmp_def)

lemma filter_files_to_delete_match:
  "filter_files_to_delete A B = 0 \<longleftrightarrow>
     is_deleted A \<or> (filename A = filename B \<and> \<not> is_deleted B)"
  by (simp add: filter_files_to_delete_def)

lemma remove_files_from_fs_set:
  "remove_files_from_fs fl st n = (st', n') \<Longrightarrow>
   set (fs st') = set (fs st) - filename ` set fl \<and>
   submanifests st' = submanifests st \<and> bundles_to_remove st' = bundles_to_remove st \<and>
   ret_code st' = ret_code st \<and> bad st' = bad st \<and> total st' = total st \<and>
   skipped_codes (events st') = skipped_codes (events st)"
proof (induction fl arbitrary: st n)
  case Nil
  then show ?case by simp
next
  case (Cons f fl)
  show ?case
  proof (cases "filename f \<in> set (fs st)")
    case True
    with Cons.prems have "remove_files_from_fs fl
        (emit (Unlinked (filename f)) (st\<lparr>fs := filter (\<lambda>p. p \<noteq> filename f) (fs st)\<rparr>)) (Suc n)
      = (st', n')" by simp
    from Cons.IH[OF this] show ?thesis
      by (auto simp: skipped_codes_append skipped_codes_single)
  next
    case False
    with Cons.prems have "remove_files_from_fs fl st n = (st', n')" by simp
    from Cons.IH[OF this] False show ?thesis by auto
  qed
qed

lemma consolidate_Nil: "consolidate_files_from_bundles [] = []"
  by (simp add: consolidate_files_from_bundles_def)

lemma remove_selected_effect:
  "set (fs (remove_selected st)) = set (fs st) - filename ` set (unlink_list st) \<and>
   submanifests (remove_selected st) = submanifests st \<and>
   bundles_to_remove (remove_selected st) = bundles_to_remove st \<and>
   ret_code (remove_selected st) = ret_code st \<and> bad (remove_selected st) = bad st \<and>
   total (remove_selected st) = total st \<and>
   skipped_codes (events (remove_selected st)) = skipped_codes (events st)"
proof (cases "bundles_to_remove st = []")
  case True
  then show ?thesis
    by (simp add: remove_selected_def unlink_list_def consolidate_Nil list_filter_common_elements_def)
next
  case ne: False
  show ?thesis
  proof (cases "unlink_list st = []")
    case True
    with ne show ?thesis by (simp add: remove_selected_def unlink_list_def [symmetric])
  next
    case False
    obtain st' n where r: "remove_files_from_fs (unlink_list st) (emit Info_deleting_files st) 0 = (st', n)"
      by (cases "remove_files_from_fs (unlink_list st) (emit Info_deleting_files st) 0")
    from ne False r have "remove_selected st = emit (Info_total_deleted n) st'"
      by (simp add: remove_selected_def unlink_list_def [symmetric] Let_def)
    with remove_files_from_fs_set[OF r] show ?thesis
      by (simp add: skipped_codes_append skipped_codes_single)
  qed
qed

lemma in_unlink_list:
  "f \<in> set (unlink_list st) \<longleftrightarrow>
     f \<in> set (consolidate_files_from_bundles (bundles_to_remove st)) \<and>
     \<not> (\<exists>g \<in> set (consolidate_files_from_bundles (submanifests st)).
          is_deleted f \<or> (filename f = filename g \<and> \<not> is_deleted g))"
  by (simp add: unlink_list_def list_filter_common_elements_def list_ex_iff
        filter_files_to_delete_match)

lemma unlinked_not_kept:
  assumes "p \<in> filename ` set (unlink_list st)"
  shows "has_record (bundles_to_remove st) p \<and> \<not> has_live_record (submanifests st) p"
proof -
  from assms obtain f where f: "f \<in> set (unlink_list st)" "filename f = p" by auto
  from f(1) have c: "f \<in> set (consolidate_files_from_bundles (bundles_to_remove st))"
    and n: "\<not> (\<exists>g \<in> set (consolidate_files_from_bundles (submanifests st)).
          is_deleted f \<or> (filename f = filename g \<and> \<not> is_deleted g))"
    by (simp_all add: in_unlink_list)
  from consolidate_record[OF c] f(2) have "has_record (bundles_to_remove st) p" by simp
  moreover have "\<not> has_live_record (submanifests st) p"
  proof
    assume "has_live_record (submanifests st) p"
    then obtain g where "g \<in> set (consolidate_files_from_bundles (submanifests st))"
      "filename g = p" "\<not> is_deleted g"
      using consolidate_live[of "submanifests st" p] by blast
    with n f(2) show False by auto
  qed
  ultimately show ?thesis by simp
qed

lemma uniquely_owned_unlinked:
  assumes "has_live_record (bundles_to_remove st) p" and "\<not> has_live_record (submanifests st) p"
  shows "p \<in> filename ` set (unlink_list st)"
proof -
  from assms(1) obtain f where f: "f \<in> set (consolidate_files_from_bundles (bundles_to_remove st))"
      "filename f = p" "\<not> is_deleted f"
    using consolidate_live[of "bundles_to_remove st" p] by blast
  have "\<not> (\<exists>g \<in> set (consolidate_files_from_bundles (submanifests st)).
          is_deleted f \<or> (filename f = filename g \<and> \<not> is_deleted g))"
  proof
    assume "\<exists>g \<in> set (consolidate_files_from_bundles (submanifests st)).
          is_deleted f \<or> (filename f = filename g \<and> \<not> is_deleted g)"
    with f obtain g where "g \<in> set (consolidate_files_from_bundles (submanifests st))"
      "filename g = p" "\<not> is_deleted g" by auto
    then have "has_live_record (submanifests st) p"
      using consolidate_live[of "submanifests st" p] by blast
    with assms(2) show False by simp
  qed
  with f(1) have "f \<in> set (unlink_list st)" by (simp add: in_unlink_list)
  with f(2) show ?thesis by auto
qed

lemma initial_accounted: "accounted (initial_rstate fs0 tr0\<lparr>submanifests := subm\<rparr>)"
  by (simp add: accounted_def initial_rstate_def skipped_codes_single)

lemma report_totals_fields [simp]:
  "fs (report_totals st) = fs st" "submanifests (report_totals st) = submanifests st"
  "bundles_to_remove (report_totals st) = bundles_to_remove st"
  "ret_code (report_totals st) = ret_code st" "bad (report_totals st) = bad st"
  "total (report_totals st) = total st"
  "skipped_codes (events (report_totals st)) = skipped_codes (events st)"
  "last (events (report_totals st)) =
     (if 0 < bad st then Print_failed_to_remove (bad st) (total st)
      else Print_successfully_removed (total st))"
  by (simp_all add: report_totals_def skipped_codes_append skipped_codes_single)

lemma out_deinit_fields [simp]:
  "fs (out_deinit c st) = fs st" "submanifests (out_deinit c st) = submanifests st"
  "bundles_to_remove (out_deinit c st) = bundles_to_remove st"
  by (simp_all add: out_deinit_def)

lemma remove_bundles_shape:
  assumes "remove_bundles fuel env fs0 tr0 bundles = Some st"
  obtains (aborted) "fs st = fs0" "submanifests st = []" "bundles_to_remove st = []"
  | (looped) mom stL where "init_ret env = 0" "0 \<le> current_version env" "current_mom env = Some mom"
      "loaded_submanifests env \<noteq> []"
      "remove_loop fuel env mom bundles
         (initial_rstate fs0 tr0\<lparr>submanifests := loaded_submanifests env\<rparr>) = Some stL"
      "st = report_totals (remove_selected stL)"
proof (cases "init_ret env = 0 \<and> 0 \<le> current_version env \<and> current_mom env \<noteq> None
              \<and> loaded_submanifests env \<noteq> []")
  case False
  with assms have "fs st = fs0 \<and> submanifests st = [] \<and> bundles_to_remove st = []"
    by (auto simp: remove_bundles_def Let_def initial_rstate_def split: if_splits option.splits)
  then show ?thesis using aborted by simp
next
  case True
  then obtain mom where mom: "current_mom env = Some mom" by auto
  with True assms obtain stL where "remove_loop fuel env mom bundles
         (initial_rstate fs0 tr0\<lparr>submanifests := loaded_submanifests env\<rparr>) = Some stL"
      "st = report_totals (remove_selected stL)"
    by (auto simp: remove_bundles_def Let_def)
  with True mom show ?thesis using looped by simp
qed

lemma required_by_sources:
  "(required_by_includes fuel subm excl name bndl incs acc = Some r \<longrightarrow>
      component bndl \<in> with_includes subm \<longrightarrow> set r \<subseteq> set acc \<union> with_includes subm)"
  "(required_by_walk fuel subm excl name bs acc = Some r \<longrightarrow>
      set bs \<subseteq> set subm \<longrightarrow> set r \<subseteq> set acc \<union> with_includes subm)"
proof (induction fuel subm excl name bndl incs acc and fuel subm excl name bs acc
       arbitrary: r and r rule: required_by_includes_required_by_walk.induct)
  case (1 fuel subm exclusions bundle_name bndl reqd)
  show ?case by auto
next
  case (2 fuel subm exclusions bundle_name bndl name rest reqd)
  show ?case
  proof (intro impI)
    assume res: "required_by_includes fuel subm exclusions bundle_name bndl (name # rest) reqd = Some r"
      and src: "component bndl \<in> with_includes subm"
    show "set r \<subseteq> set reqd \<union> with_includes subm"
    proof (cases "name = bundle_name")
      case False
      with res "2.IH"(3)[OF False, of r] src show ?thesis by simp
    next
      case True
      let ?acc1 = "if component bndl \<notin> set exclusions then reqd @ [component bndl] else reqd"
      from res True obtain n where fuel: "fuel = Suc n"
        by (cases fuel) simp_all
      from res True fuel obtain r1 where
        r1: "required_by_walk n subm exclusions (component bndl) subm ?acc1 = Some r1"
        and r2: "required_by_includes fuel subm exclusions bundle_name bndl rest r1 = Some r"
        by (auto split: option.splits if_splits)
      from "2.IH"(1)[OF True fuel, of r1] r1
      have s1: "set r1 \<subseteq> set ?acc1 \<union> with_includes subm" by simp
      from "2.IH"(2)[OF True fuel r1, of r] r2 src
      have s2: "set r \<subseteq> set r1 \<union> with_includes subm" by simp
      from s1 s2 src show ?thesis by (auto split: if_splits)
    qed
  qed
next
  case (3 fuel subm exclusions bundle_name reqd)
  show ?case by auto
next
  case (4 fuel subm exclusions bundle_name bndl bs reqd)
  show ?case
  proof (intro impI)
    assume res: "required_by_walk fuel subm exclusions bundle_name (bndl # bs) reqd = Some r"
      and sub: "set (bndl # bs) \<subseteq> set subm"
    show "set r \<subseteq> set reqd \<union> with_includes subm"
    proof (cases "component bndl = bundle_name")
      case True
      with res "4.IH"(1)[OF True, of r] sub show ?thesis by simp
    next
      case False
      from res False obtain r1 where
        r1: "required_by_includes fuel subm exclusions bundle_name bndl (includes_list bndl) reqd = Some r1"
        and r2: "required_by_walk fuel subm exclusions bundle_name bs r1 = Some r"
        by (auto split: option.splits)
      have s1: "set r1 \<subseteq> set reqd \<union> with_includes subm"
      proof (cases "includes_list bndl = []")
        case True
        with r1 show ?thesis by simp
      next
        case ne: False
        with sub have "component bndl \<in> with_includes subm"
          by (auto simp: with_includes_def)
        with "4.IH"(2)[OF False, of r1] r1 show ?thesis by simp
      qed
      from "4.IH"(3)[OF False r1, of r] r2 sub
      have "set r \<subseteq> set r1 \<union> with_includes subm" by simp
      with s1 show ?thesis by auto
    qed
  qed
qed

lemma required_by_with_includes:
  assumes "required_by fuel subm excl name = Some ds"
  shows "set ds \<subseteq> with_includes subm"
proof -
  from assms obtain z where z: "required_by_walk fuel subm excl name subm [] = Some z"
    and ds: "ds = remdups z" by (auto simp: required_by_def)
  from required_by_sources(2)[where fuel=fuel and subm=subm and excl=excl and name=name
      and bs=subm and acc="[]" and r=z] z
  have "set z \<subseteq> with_includes subm" by simp
  with ds show ?thesis by simp
qed

lemma move_to_remove_keeps:
  assumes "m \<in> set (submanifests st)" and "component m \<noteq> n"
  shows "m \<in> set (submanifests (move_to_remove n st))"
proof (cases "find (\<lambda>x. component x = n) (submanifests st)")
  case None
  with assms show ?thesis by (simp add: move_to_remove_def list_move_item_def)
next
  case (Some x)
  then have "component x = n" by (auto simp: find_Some_iff)
  with assms have "m \<noteq> x" by auto
  with assms(1) have "m \<in> set (remove1 x (submanifests st))" by simp
  with Some show ?thesis by (simp add: move_to_remove_def list_move_item_def)
qed

lemma force_fold_keeps:
  "m \<in> set (submanifests st) \<Longrightarrow> component m \<notin> set ds \<Longrightarrow>
   m \<in> set (submanifests (fold (\<lambda>dep s. remove_tracked dep (move_to_remove dep s)) ds st))"
proof (induction ds arbitrary: st)
  case Nil
  then show ?case by simp
next
  case (Cons d ds)
  from Cons.prems have "m \<in> set (submanifests (remove_tracked d (move_to_remove d st)))"
    using move_to_remove_keeps[of m st d] by simp
  from Cons.IH[OF this] Cons.prems(2) show ?case by simp
qed

lemma remove_body_keeps_os_core:
  assumes r: "remove_body fuel env mom b bs st = Some st'"
    and safe: "os_core_safe env"
    and sub: "set (submanifests st) \<subseteq> set (loaded_submanifests env)"
    and m: "m \<in> set (submanifests st)" "component m = ''os-core''"
  shows "m \<in> set (submanifests st')"
proof (cases "b = ''os-core''")
  case True
  with r have "st' = skip_bundle Warn_os_core_skipped SWUPD_REQUIRED_BUNDLE_ERROR st"
    by (simp add: remove_body_def)
  with m show ?thesis by simp
next
  case nb: False
  from r show ?thesis
  proof (cases rule: remove_body_cases)
    case (skip e c)
    with m show ?thesis by simp
  next
    case plain
    with m nb move_to_remove_keeps[of m st b] show ?thesis by simp
  next
    case (force ds)
    have "''os-core'' \<notin> set ds"
    proof
      assume "''os-core'' \<in> set ds"
      with required_by_with_includes[OF force(1)]
      obtain x where x: "x \<in> set (submanifests st)" "component x = ''os-core''"
        "includes_list x \<noteq> []" by (auto simp: with_includes_def)
      with sub have "x \<in> set (loaded_submanifests env)" by auto
      with safe force(2) x show False by (auto simp: os_core_safe_def list_all_iff)
    qed
    with m have "m \<in> set (submanifests
        (fold (\<lambda>dep s. remove_tracked dep (move_to_remove dep s)) ds (emit (Info_force_used b) st)))"
      using force_fold_keeps[of m "emit (Info_force_used b) st" ds] by simp
    from move_to_remove_keeps[OF this, of b] m nb force(3) show ?thesis by simp
  qed
qed

lemma remove_loop_keeps_os_core:
  "remove_loop fuel env mom bundles st = Some st' \<Longrightarrow> os_core_safe env \<Longrightarrow>
   set (submanifests st) \<subseteq> set (loaded_submanifests env) \<Longrightarrow>
   m \<in> set (submanifests st) \<Longrightarrow> component m = ''os-core'' \<Longrightarrow>
   m \<in> set (submanifests st')"
proof (induction bundles arbitrary: st)
  case Nil
  then show ?case by simp
next
  case (Cons b bs)
  from Cons.prems(1) obtain st1 where b: "remove_body fuel env mom b (b # bs) st = Some st1"
    and l: "remove_loop fuel env mom bs (st1\<lparr>total := total st1 + 1\<rparr>) = Some st'"
    by (auto split: option.splits)
  from remove_body_keeps_os_core[OF b Cons.prems(2,3,4,5)]
  have "m \<in> set (submanifests (st1\<lparr>total := total st1 + 1\<rparr>))" by simp
  moreover from remove_body_subset[OF b] Cons.prems(3)
  have "set (submanifests (st1\<lparr>total := total st1 + 1\<rparr>)) \<subseteq> set (loaded_submanifests env)"
    by auto
  ultimately show ?case using Cons.IH[OF l Cons.prems(2)] Cons.prems(5) by blast
qed

lemma remove_body_events_mono:
  assumes "remove_body fuel env mom b bs st = Some st'"
  shows "set (events st) \<subseteq> set (events st')"
  using assms
proof (cases rule: remove_body_cases)
  case (force ds)
  have "set (events s) \<subseteq> set (events (fold (\<lambda>dep s. remove_tracked dep (move_to_remove dep s)) ds s))" for s
    by (induction ds arbitrary: s) (auto, fastforce)
  from this[of "emit (Info_force_used b) st"] force(3) show ?thesis by auto
qed auto

lemma remove_loop_events_mono:
  "remove_loop fuel env mom bundles st = Some st' \<Longrightarrow> set (events st) \<subseteq> set (events st')"
proof (induction bundles arbitrary: st)
  case Nil
  then show ?case by simp
next
  case (Cons b bs)
  from Cons.prems(1) obtain st1 where b: "remove_body fuel env mom b (b # bs) st = Some st1"
    and l: "remove_loop fuel env mom bs (st1\<lparr>total := total st1 + 1\<rparr>) = Some st'"
    by (auto split: option.splits)
  from remove_body_events_mono[OF b] Cons.IH[OF l] show ?case by auto
qed

lemma remove_loop_warns_os_core:
  "remove_loop fuel env mom bundles st = Some st' \<Longrightarrow> ''os-core'' \<in> set bundles \<Longrightarrow>
   Warn_os_core_skipped \<in> set (events st')"
proof (induction bundles arbitrary: st)
  case Nil
  then show ?case by simp
next
  case (Cons b bs)
  from Cons.prems(1) obtain st1 where b: "remove_body fuel env mom b (b # bs) st = Some st1"
    and l: "remove_loop fuel env mom bs (st1\<lparr>total := total st1 + 1\<rparr>) = Some st'"
    by (auto split: option.splits)
  show ?case
  proof (cases "b = ''os-core''")
    case True
    with b have "Warn_os_core_skipped \<in> set (events (st1\<lparr>total := total st1 + 1\<rparr>))"
      by (auto simp: remove_body_def)
    with remove_loop_events_mono[OF l] show ?thesis by auto
  next
    case False
    with Cons.prems(2) Cons.IH[OF l] show ?thesis by simp
  qed
qed

lemma skip_code_not_ok: "skip_code e = Some c \<Longrightarrow> c \<noteq> SWUPD_OK"
  by (cases e) auto

lemma skipped_codes_not_ok: "c \<in> set (skipped_codes evs) \<Longrightarrow> c \<noteq> SWUPD_OK"
  by (auto simp: skipped_codes_def map_filter_def dest: skip_code_not_ok)

lemma skipped_codes_os_core:
  "Warn_os_core_skipped \<in> set evs \<Longrightarrow> skipped_codes evs \<noteq> []"
proof -
  assume "Warn_os_core_skipped \<in> set evs"
  then have "SWUPD_REQUIRED_BUNDLE_ERROR \<in> set (skipped_codes evs)"
    by (force simp: skipped_codes_def map_filter_def)
  then show ?thesis by auto
qed

lemma remove_body_valid_installed:
  assumes "remove_body fuel env mom b bs st = Some st'"
    and "search_bundle_in_manifest mom b \<noteq> None" and "is_installed_bundle (fs st) b"
  shows "ret_code st' = SWUPD_REQUIRED_BUNDLE_ERROR \<or> ret_code st' = ret_code st"
proof (cases "b = ''os-core''")
  case True
  with assms(1) have "st' = skip_bundle Warn_os_core_skipped SWUPD_REQUIRED_BUNDLE_ERROR st"
    by (simp add: remove_body_def)
  then show ?thesis by simp
next
  case nb: False
  from assms(1) nb assms(2,3) obtain ds where ds: "required_by fuel (submanifests st) bs b = Some ds"
    by (cases "required_by fuel (submanifests st) bs b") (simp_all add: remove_body_def)
  show ?thesis
  proof (cases "ds \<noteq> [] \<and> \<not> cmdline_option_force env")
    case True
    with assms nb ds have "st' = skip_bundle (Error_required_skipped b (length ds))
        SWUPD_REQUIRED_BUNDLE_ERROR st" by (simp add: remove_body_def)
    then show ?thesis by simp
  next
    case False
    with assms nb ds show ?thesis
      by (auto simp: remove_body_def force_fold_fields split: if_splits)
  qed
qed

lemma remove_body_fs:
  assumes "remove_body fuel env mom b bs st = Some st'"
  shows "fs st' = fs st"
  using assms
proof (cases rule: remove_body_cases)
  case (force ds)
  then show ?thesis by (simp add: force_fold_fields)
qed simp_all

lemma remove_loop_after_os_core:
  "remove_loop fuel env mom post st = Some st' \<Longrightarrow>
   list_all (\<lambda>b. search_bundle_in_manifest mom b \<noteq> None \<and> is_installed_bundle (fs st) b) post \<Longrightarrow>
   ret_code st = SWUPD_REQUIRED_BUNDLE_ERROR \<Longrightarrow> ret_code st' = SWUPD_REQUIRED_BUNDLE_ERROR"
proof (induction post arbitrary: st)
  case Nil
  then show ?case by simp
next
  case (Cons b bs)
  from Cons.prems(1) obtain st1 where b: "remove_body fuel env mom b (b # bs) st = Some st1"
    and l: "remove_loop fuel env mom bs (st1\<lparr>total := total st1 + 1\<rparr>) = Some st'"
    by (auto split: option.splits)
  from remove_body_valid_installed[OF b] Cons.prems(2,3)
  have "ret_code (st1\<lparr>total := total st1 + 1\<rparr>) = SWUPD_REQUIRED_BUNDLE_ERROR" by auto
  moreover from remove_body_fs[OF b] Cons.prems(2)
  have "list_all (\<lambda>b. search_bundle_in_manifest mom b \<noteq> None \<and>
          is_installed_bundle (fs (st1\<lparr>total := total st1 + 1\<rparr>)) b) bs" by simp
  ultimately show ?case using Cons.IH[OF l] by blast
qed

lemma remove_loop_os_core_last:
  "remove_loop fuel env mom (pre @ ''os-core'' # post) st = Some st' \<Longrightarrow>
   list_all (\<lambda>b. search_bundle_in_manifest mom b \<noteq> None \<and> is_installed_bundle (fs st) b) post \<Longrightarrow>
   ret_code st' = SWUPD_REQUIRED_BUNDLE_ERROR"
proof (induction pre arbitrary: st)
  case Nil
  let ?s1 = "(skip_bundle Warn_os_core_skipped SWUPD_REQUIRED_BUNDLE_ERROR st)\<lparr>total := total st + 1\<rparr>"
  from Nil.prems(1) have l: "remove_loop fuel env mom post ?s1 = Some st'"
    by (simp add: remove_body_def)
  from remove_loop_after_os_core[OF l] Nil.prems(2) show ?case by simp
next
  case (Cons b bs)
  from Cons.prems(1) obtain st1 where b: "remove_body fuel env mom b (b # bs @ ''os-core'' # post) st = Some st1"
    and l: "remove_loop fuel env mom (bs @ ''os-core'' # post) (st1\<lparr>total := total st1 + 1\<rparr>) = Some st'"
    by (auto split: option.splits)
  from remove_body_fs[OF b] Cons.prems(2)
  have "list_all (\<lambda>b. search_bundle_in_manifest mom b \<noteq> None \<and>
          is_installed_bundle (fs (st1\<lparr>total := total st1 + 1\<rparr>)) b) post" by simp
  from Cons.IH[OF l this] show ?case .
qed

lemma remove_files_from_fs_events:
  "remove_files_from_fs fl st n = (st', n') \<Longrightarrow> set (events st) \<subseteq> set (events st')"
proof (induction fl arbitrary: st n)
  case Nil
  then show ?case by simp
next
  case (Cons f fl)
  show ?case
  proof (cases "filename f \<in> set (fs st)")
    case True
    with Cons.prems have "remove_files_from_fs fl
        (emit (Unlinked (filename f)) (st\<lparr>fs := filter (\<lambda>p. p \<noteq> filename f) (fs st)\<rparr>)) (Suc n)
      = (st', n')" by simp
    from Cons.IH[OF this] show ?thesis by auto
  next
    case False
    with Cons.prems have "remove_files_from_fs fl st n = (st', n')" by simp
    from Cons.IH[OF this] show ?thesis .
  qed
qed

lemma remove_selected_events:
  "set (events st) \<subseteq> set (events (remove_selected st))"
proof -
  obtain st' n where r: "remove_files_from_fs (unlink_list st) (emit Info_deleting_files st) 0 = (st', n)"
    by (cases "remove_files_from_fs (unlink_list st) (emit Info_deleting_files st) 0")
  from remove_files_from_fs_events[OF r] have "set (events st) \<subseteq> set (events st')" by simp
  with r show ?thesis
    by (auto simp: remove_selected_def unlink_list_def [symmetric] Let_def)
qed

lemma has_live_recordI:
  "m \<in> set ms \<Longrightarrow> f \<in> set (files m) \<Longrightarrow> \<not> is_deleted f \<Longrightarrow>
   has_live_record ms (filename f)"
  unfolding has_live_record_def list_ex_iff by (intro bexI[of _ m] bexI[of _ f] conjI refl)

subsection \<open>The tracking records of a removal\<close>

lemma force_fold_no_unlink:
  "\<exists>evs. events (fold (\<lambda>dep s. remove_tracked dep (move_to_remove dep s)) ds st) = events st @ evs
      \<and> list_all (\<lambda>e. \<not> is_unlinked e) evs"
proof (induction ds arbitrary: st)
  case Nil
  show ?case by simp
next
  case (Cons d ds)
  from Cons.IH[of "remove_tracked d (move_to_remove d st)"] obtain evs where
    "events (fold (\<lambda>dep s. remove_tracked dep (move_to_remove dep s)) ds
        (remove_tracked d (move_to_remove d st))) = events st @ Untracked d # evs"
    "list_all (\<lambda>e. \<not> is_unlinked e) evs" by auto
  then show ?case by (intro exI[of _ "Untracked d # evs"]) simp
qed

lemma remove_body_no_unlink:
  assumes "remove_body fuel env mom b bs st = Some st'"
  shows "\<exists>evs. events st' = events st @ evs \<and> list_all (\<lambda>e. \<not> is_unlinked e) evs"
  using assms
proof (cases rule: remove_body_cases)
  case (skip e c)
  then have "\<not> is_unlinked e" by (cases e) simp_all
  with skip show ?thesis by simp
next
  case plain
  then show ?thesis by simp
next
  case (force ds)
  from force_fold_no_unlink[of ds "emit (Info_force_used b) st"] obtain evs where
    "events (fold (\<lambda>dep s. remove_tracked dep (move_to_remove dep s)) ds
        (emit (Info_force_used b) st)) = events st @ Info_force_used b # evs"
    "list_all (\<lambda>e. \<not> is_unlinked e) evs" by auto
  with force(3) show ?thesis
    by (intro exI[of _ "Info_force_used b # evs @ [Info_removing_bundle b, Untracked b]"]) simp
qed

lemma remove_loop_no_unlink:
  "remove_loop fuel env mom bundles st = Some st' \<Longrightarrow>
   \<exists>evs. events st' = events st @ evs \<and> list_all (\<lambda>e. \<not> is_unlinked e) evs"
proof (induction bundles arbitrary: st)
  case Nil
  then show ?case by simp
next
  case (Cons b bs)
  from Cons.prems(1) obtain st1 where b: "remove_body fuel env mom b (b # bs) st = Some st1"
    and l: "remove_loop fuel env mom bs (st1\<lparr>total := total st1 + 1\<rparr>) = Some st'"
    by (auto split: option.splits)
  from remove_body_no_unlink[OF b] obtain e1 where
    e1: "events st1 = events st @ e1" "list_all (\<lambda>e. \<not> is_unlinked e) e1" by blast
  from Cons.IH[OF l] obtain e2 where
    e2: "events st' = events st1 @ e2" "list_all (\<lambda>e. \<not> is_unlinked e) e2" by auto
  from e1 e2 show ?case by (intro exI[of _ "e1 @ e2"]) simp
qed

lemma remove_files_from_fs_no_untrack:
  "remove_files_from_fs fl st n = (st', n') \<Longrightarrow>
   \<exists>evs. events st' = events st @ evs \<and> list_all (\<lambda>e. \<not> is_untracked e) evs"
proof (induction fl arbitrary: st n)
  case Nil
  then show ?case by simp
next
  case (Cons f fl)
  show ?case
  proof (cases "filename f \<in> set (fs st)")
    case True
    let ?s = "emit (Unlinked (filename f)) (st\<lparr>fs := filter (\<lambda>p. p \<noteq> filename f) (fs st)\<rparr>)"
    from Cons.prems True have "remove_files_from_fs fl ?s (Suc n) = (st', n')" by simp
    from Cons.IH[OF this] obtain evs where
      "events st' = events st @ Unlinked (filename f) # evs"
      "list_all (\<lambda>e. \<not> is_untracked e) evs" by auto
    then show ?thesis by (intro exI[of _ "Unlinked (filename f) # evs"]) simp
  next
    case False
    with Cons.prems have "remove_files_from_fs fl st n = (st', n')" by simp
    from Cons.IH[OF this] show ?thesis .
  qed
qed

lemma remove_selected_no_untrack:
  "\<exists>evs. events (remove_selected st) = events st @ evs \<and> list_all (\<lambda>e. \<not> is_untracked e) evs"
proof -
  obtain st' n where r: "remove_files_from_fs (unlink_list st) (emit Info_deleting_files st) 0 = (st', n)"
    by (cases "remove_files_from_fs (unlink_list st) (emit Info_deleting_files st) 0")
  from remove_files_from_fs_no_untrack[OF r] obtain evs where
    evs: "events st' = events st @ Info_deleting_files # evs"
    "list_all (\<lambda>e. \<not> is_untracked e) evs" by auto
  show ?thesis
  proof (cases "bundles_to_remove st \<noteq> [] \<and> unlink_list st \<noteq> []")
    case True
    with r have "remove_selected st = emit (Info_total_deleted n) st'"
      by (simp add: remove_selected_def unlink_list_def [symmetric] Let_def)
    with evs show ?thesis
      by (intro exI[of _ "Info_deleting_files # evs @ [Info_total_deleted n]"]) simp
  next
    case False
    then have "remove_selected st = st"
      by (auto simp: remove_selected_def unlink_list_def [symmetric] Let_def)
    then show ?thesis by simp
  qed
qed

lemma remove_bundles_untracks_first:
  assumes "remove_bundles fuel env fs0 tr0 bundles = Some st"
  shows "untracks_first (events st)"
proof (cases "init_ret env = 0 \<and> 0 \<le> current_version env \<and> current_mom env \<noteq> None
              \<and> loaded_submanifests env \<noteq> []")
  case False
  with assms have "list_all (\<lambda>e. \<not> is_unlinked e) (events st)"
    by (auto simp: remove_bundles_def Let_def initial_rstate_def out_deinit_def emit_def
        split: if_splits option.splits)
  then show ?thesis unfolding untracks_first_def
    by (intro exI[of _ "events st"] exI[of _ "[]"]) simp
next
  case True
  then obtain mom where mom: "current_mom env = Some mom" by auto
  with True assms obtain stL where loop: "remove_loop fuel env mom bundles
         (initial_rstate fs0 tr0\<lparr>submanifests := loaded_submanifests env\<rparr>) = Some stL"
      and st: "st = report_totals (remove_selected stL)"
    by (auto simp: remove_bundles_def Let_def)
  from remove_loop_no_unlink[OF loop] obtain a where
    a: "events stL = a" "list_all (\<lambda>e. \<not> is_unlinked e) a"
    by (auto simp: initial_rstate_def)
  from remove_selected_no_untrack[of stL] obtain b where
    b: "events (remove_selected stL) = events stL @ b" "list_all (\<lambda>e. \<not> is_untracked e) b"
    by blast
  let ?p = "if 0 < bad (remove_selected stL)
            then Print_failed_to_remove (bad (remove_selected stL)) (total (remove_selected stL))
            else Print_successfully_removed (total (remove_selected stL))"
  from st have "events st = events (remove_selected stL) @ [?p]"
    by (simp add: report_totals_def)
  with a b have "events st = a @ (b @ [?p])" "list_all (\<lambda>e. \<not> is_untracked e) (b @ [?p])"
    by simp_all
  with a(2) show ?thesis unfolding untracks_first_def by blast
qed

section \<open>The claims about remove_bundles\<close>

lemma kept_files_stay:
  assumes "remove_bundles fuel env fs0 tr0 bundles = Some st"
    and "p \<in> set fs0" and "has_live_record (submanifests st) p"
  shows "p \<in> set (fs st)"
  using assms(1)
proof (cases rule: remove_bundles_shape)
  case aborted
  with assms(2) show ?thesis by simp
next
  case (looped mom stL)
  from remove_loop_accounted[OF looped(5) initial_accounted]
  have fsL: "fs stL = fs0" by (simp add: initial_rstate_def)
  from remove_selected_effect[of stL] looped(6) fsL
  have eff: "set (fs st) = set fs0 - filename ` set (unlink_list stL)"
    "submanifests st = submanifests stL" by simp_all
  from unlinked_not_kept[of p stL] assms(3) eff(2)
  have "p \<notin> filename ` set (unlink_list stL)" by auto
  with assms(2) eff(1) show ?thesis by simp
qed

lemma sample_removal_returns: "remove_bundles 0 sample_remove_env sample_fs [] [''editors'', ''vim''] \<noteq> None"
  by code_simp

lemma sample_removal_removed: "map_option bundles_to_remove (remove_bundles 0 sample_remove_env sample_fs [] [''editors'', ''vim''])
   = Some [editors_manifest, vim_manifest]"
  by code_simp

lemma sample_removal_kept: "map_option submanifests (remove_bundles 0 sample_remove_env sample_fs [] [''editors'', ''vim''])
   = Some [os_core_manifest]"
  by code_simp

lemma sample_removal_records: "has_live_record [editors_manifest, vim_manifest] ''/usr/bin/vim''"
  "\<not> has_live_record [os_core_manifest] ''/usr/bin/vim''"
  "has_live_record [os_core_manifest] ''/usr/bin/sh''" "''/usr/bin/sh'' \<in> set sample_fs"
  by code_simp+

lemma sample_env_loads: "init_ret sample_remove_env = 0" "0 \<le> current_version sample_remove_env"
  "current_mom sample_remove_env = Some sample_mom" "loaded_submanifests sample_remove_env \<noteq> []"
  "ranked_includes sample_rank (loaded_submanifests sample_remove_env)"
  by code_simp+


lemma sample_os_core_ranks: "\<forall>b \<in> set [''vim'', ''os-core'', ''editors'']. sample_rank b \<le> 1"
  "''os-core'' \<in> set [''vim'', ''os-core'', ''editors'']"
  by code_simp+

lemma sample_os_core_facts: "[''vim'', ''os-core'', ''editors''] = [''vim''] @ ''os-core'' # [''editors'']"
  "list_all (\<lambda>b. search_bundle_in_manifest sample_mom b \<noteq> None \<and> is_installed_bundle sample_fs b) [''editors'']"
  "os_core_safe sample_remove_env" "os_core_manifest \<in> set (loaded_submanifests sample_remove_env)"
  "component os_core_manifest = ''os-core''"
  "sample_file ''/usr/bin/sh'' ''a1'' \<in> set (files os_core_manifest)"
  "\<not> is_deleted (sample_file ''/usr/bin/sh'' ''a1'') \<and> filename (sample_file ''/usr/bin/sh'' ''a1'') \<in> set sample_fs"
  "filename (sample_file ''/usr/bin/sh'' ''a1'') = ''/usr/bin/sh''"
  by code_simp+

text \<open>
  C1.  Whenever \<^verbatim>\<open>remove_bundles\<close> returns, with \<open>bundles_to_remove st\<close> the manifests it
  removed and \<open>submanifests st\<close> the manifests it kept: a path that was unlinked has a
  record in a removed manifest and no record that is not deleted in a kept manifest; a
  path with a live record in a removed manifest and none in a kept manifest is gone;
  and a path with a live record in a kept manifest is still there.
\<close>

theorem remove_unlinks_only_unkept:
  assumes "remove_bundles fuel env fs0 tr0 bundles = Some st"
  shows "(p \<in> set fs0 \<and> p \<notin> set (fs st) \<longrightarrow>
            has_record (bundles_to_remove st) p \<and> \<not> has_live_record (submanifests st) p) \<and>
         (has_live_record (bundles_to_remove st) p \<and> \<not> has_live_record (submanifests st) p
            \<longrightarrow> p \<notin> set (fs st)) \<and>
         (p \<in> set fs0 \<and> has_live_record (submanifests st) p \<longrightarrow> p \<in> set (fs st))"
  using assms
proof (cases rule: remove_bundles_shape)
  case aborted
  then show ?thesis by (simp add: has_live_record_def)
next
  case (looped mom stL)
  from remove_loop_accounted[OF looped(5) initial_accounted]
  have fsL: "fs stL = fs0" by (simp add: initial_rstate_def)
  from remove_selected_effect[of stL] looped(6) fsL
  have eff: "set (fs st) = set fs0 - filename ` set (unlink_list stL)"
    "submanifests st = submanifests stL" "bundles_to_remove st = bundles_to_remove stL"
    by simp_all
  show ?thesis
    using unlinked_not_kept[of p stL] uniquely_owned_unlinked[of stL p] eff
    by auto
qed

theorem remove_unlinks_only_unkept_witness:
  "\<exists>st. remove_bundles 0 sample_remove_env sample_fs [] [''editors'', ''vim''] = Some st \<and>
        ''/usr/bin/vim'' \<notin> set (fs st) \<and> ''/usr/bin/sh'' \<in> set (fs st)"
proof -
  obtain st where st: "remove_bundles 0 sample_remove_env sample_fs [] [''editors'', ''vim''] = Some st"
    using sample_removal_returns by blast
  from st sample_removal_removed sample_removal_kept have l: "bundles_to_remove st = [editors_manifest, vim_manifest]"
    "submanifests st = [os_core_manifest]" by simp_all
  from remove_unlinks_only_unkept[OF st, of "''/usr/bin/vim''"] l sample_removal_records have "''/usr/bin/vim'' \<notin> set (fs st)" by simp
  moreover from remove_unlinks_only_unkept[OF st, of "''/usr/bin/sh''"] l sample_removal_records have "''/usr/bin/sh'' \<in> set (fs st)" by simp
  ultimately show ?thesis using st by simp
qed




text \<open>
  C4, as the source has it.  The claim says that the exit status tells of the required
  bundle whenever os-core is in the list; a bundle skipped after os-core replaces the
  code.  Removing os-core and then a bundle that is not installed returns
  \<open>SWUPD_BUNDLE_NOT_TRACKED\<close>.
\<close>

theorem os_core_exit_status_counterexample:
  "map_option events (remove_bundles 0 sample_remove_env bare_fs [] [''os-core'', ''vim''])
     = Some [Warn_os_core_skipped, Warn_not_installed_skipped ''vim'', Print_failed_to_remove 2 2] \<and>
   map_option ret_code (remove_bundles 0 sample_remove_env bare_fs [] [''os-core'', ''vim''])
     = Some SWUPD_BUNDLE_NOT_TRACKED"
  by code_simp

text \<open>
  C4, amended.  When the updater starts, the MoM and the manifests load, the includes
  have no cycle and os-core is in the list, \<^verbatim>\<open>remove_bundles\<close> returns, warns that os-core
  is skipped, counts it in \<^verbatim>\<open>bad\<close> and never returns \<open>SWUPD_OK\<close>.  It returns
  \<open>SWUPD_REQUIRED_BUNDLE_ERROR\<close> when every bundle after an os-core of the list is in
  the MoM and installed.  Unless \<^verbatim>\<open>--force\<close> is set and the manifest of os-core includes
  a bundle, no file with a live record in the manifest of os-core is unlinked.
\<close>

theorem os_core_removal_rejected:
  assumes "init_ret env = 0" and "0 \<le> current_version env" and "current_mom env = Some mom"
    and "loaded_submanifests env \<noteq> []"
    and "ranked_includes rank (loaded_submanifests env)"
    and "\<forall>b \<in> set bundles. rank b \<le> fuel"
    and "''os-core'' \<in> set bundles"
  shows "\<exists>st. remove_bundles fuel env fs0 tr0 bundles = Some st \<and>
           Warn_os_core_skipped \<in> set (events st) \<and> 0 < bad st \<and> ret_code st \<noteq> SWUPD_OK \<and>
           (\<forall>pre post. bundles = pre @ ''os-core'' # post \<and>
               list_all (\<lambda>b. search_bundle_in_manifest mom b \<noteq> None \<and>
                              is_installed_bundle fs0 b) post
               \<longrightarrow> ret_code st = SWUPD_REQUIRED_BUNDLE_ERROR) \<and>
           (os_core_safe env \<longrightarrow>
              (\<forall>m \<in> set (loaded_submanifests env). component m = ''os-core'' \<longrightarrow>
                 (\<forall>f \<in> set (files m). \<not> is_deleted f \<and> filename f \<in> set fs0 \<longrightarrow>
                     filename f \<in> set (fs st))))"
proof -
  let ?s0 = "initial_rstate fs0 tr0\<lparr>submanifests := loaded_submanifests env\<rparr>"
  have "ranked_includes rank (submanifests ?s0)" using assms(5) by simp
  from remove_loop_total[OF assms(6) this] obtain stL
    where loop: "remove_loop fuel env mom bundles ?s0 = Some stL" by blast
  let ?st = "report_totals (remove_selected stL)"
  have r: "remove_bundles fuel env fs0 tr0 bundles = Some ?st"
    using assms(1-4) loop by (simp add: remove_bundles_def Let_def)
  from remove_loop_accounted[OF loop initial_accounted]
  have acc: "accounted stL" by simp
  have warnL: "Warn_os_core_skipped \<in> set (events stL)"
    by (rule remove_loop_warns_os_core[OF loop assms(7)])
  then have ne: "skipped_codes (events stL) \<noteq> []" by (rule skipped_codes_os_core)
  with acc have badL: "0 < bad stL" and retL: "ret_code stL = last (skipped_codes (events stL))"
    by (simp_all add: accounted_def)
  from ne retL have "ret_code stL \<in> set (skipped_codes (events stL))" by simp
  then have nokL: "ret_code stL \<noteq> SWUPD_OK" by (rule skipped_codes_not_ok)
  have sel: "ret_code ?st = ret_code stL" "bad ?st = bad stL"
    "submanifests ?st = submanifests stL"
    using remove_selected_effect[of stL] by simp_all
  have warn: "Warn_os_core_skipped \<in> set (events ?st)"
  proof -
    have "set (events stL) \<subseteq> set (events (remove_selected stL))"
      by (rule remove_selected_events)
    then show ?thesis using warnL by (auto simp: report_totals_def)
  qed
  have last_rule: "ret_code ?st = SWUPD_REQUIRED_BUNDLE_ERROR"
    if "bundles = pre @ ''os-core'' # post"
      "list_all (\<lambda>b. search_bundle_in_manifest mom b \<noteq> None \<and> is_installed_bundle fs0 b) post"
    for pre post
  proof -
    from loop that(1) have "remove_loop fuel env mom (pre @ ''os-core'' # post) ?s0 = Some stL"
      by simp
    from remove_loop_os_core_last[OF this] that(2) sel show ?thesis
      by (simp add: initial_rstate_def)
  qed
  have keep: "filename f \<in> set (fs ?st)"
    if "os_core_safe env" "m \<in> set (loaded_submanifests env)" "component m = ''os-core''"
      "f \<in> set (files m)" "\<not> is_deleted f" "filename f \<in> set fs0" for m f
  proof -
    from remove_loop_keeps_os_core[OF loop that(1)] that(2,3)
    have "m \<in> set (submanifests stL)" by simp
    then have "has_live_record (submanifests stL) (filename f)"
      using that(4,5) by (rule has_live_recordI)
    with sel(3) have live: "has_live_record (submanifests ?st) (filename f)" by simp
    from kept_files_stay[OF r that(6) live] show ?thesis .
  qed
  have A: "\<forall>pre post. bundles = pre @ ''os-core'' # post \<and>
               list_all (\<lambda>b. search_bundle_in_manifest mom b \<noteq> None \<and>
                              is_installed_bundle fs0 b) post
               \<longrightarrow> ret_code ?st = SWUPD_REQUIRED_BUNDLE_ERROR"
  proof (intro allI impI)
    fix pre post
    assume h: "bundles = pre @ ''os-core'' # post \<and>
               list_all (\<lambda>b. search_bundle_in_manifest mom b \<noteq> None \<and>
                              is_installed_bundle fs0 b) post"
    from last_rule[of pre post] h show "ret_code ?st = SWUPD_REQUIRED_BUNDLE_ERROR" by simp
  qed
  have B: "os_core_safe env \<longrightarrow>
              (\<forall>m \<in> set (loaded_submanifests env). component m = ''os-core'' \<longrightarrow>
                 (\<forall>f \<in> set (files m). \<not> is_deleted f \<and> filename f \<in> set fs0 \<longrightarrow>
                     filename f \<in> set (fs ?st)))"
  proof (intro impI ballI)
    fix m f
    assume "os_core_safe env" "m \<in> set (loaded_submanifests env)" "component m = ''os-core''"
      "f \<in> set (files m)" "\<not> is_deleted f \<and> filename f \<in> set fs0"
    then show "filename f \<in> set (fs ?st)" using keep[of m f] by simp
  qed
  have C: "0 < bad ?st" "ret_code ?st \<noteq> SWUPD_OK" using badL nokL sel by simp_all
  from r warn C A B show ?thesis by (intro exI[of _ ?st] conjI)
qed

theorem os_core_removal_rejected_witness:
  "\<exists>st. remove_bundles 1 sample_remove_env sample_fs [] [''vim'', ''os-core'', ''editors''] = Some st \<and>
     Warn_os_core_skipped \<in> set (events st) \<and> 0 < bad st \<and>
     ret_code st = SWUPD_REQUIRED_BUNDLE_ERROR \<and> ''/usr/bin/sh'' \<in> set (fs st)"
proof -
  from os_core_removal_rejected[OF sample_env_loads sample_os_core_ranks, of sample_fs "[]"] obtain st where
    st: "remove_bundles 1 sample_remove_env sample_fs [] [''vim'', ''os-core'', ''editors''] = Some st"
    and w: "Warn_os_core_skipped \<in> set (events st)" "0 < bad st"
    and a: "\<forall>pre post. [''vim'', ''os-core'', ''editors''] = pre @ ''os-core'' # post \<and>
               list_all (\<lambda>b. search_bundle_in_manifest sample_mom b \<noteq> None \<and>
                              is_installed_bundle sample_fs b) post
               \<longrightarrow> ret_code st = SWUPD_REQUIRED_BUNDLE_ERROR"
    and b: "os_core_safe sample_remove_env \<longrightarrow>
              (\<forall>m \<in> set (loaded_submanifests sample_remove_env). component m = ''os-core'' \<longrightarrow>
                 (\<forall>f \<in> set (files m). \<not> is_deleted f \<and> filename f \<in> set sample_fs \<longrightarrow>
                     filename f \<in> set (fs st)))"
    by (elim exE conjE)
  from a[rule_format, OF conjI, OF sample_os_core_facts(1,2)] have r: "ret_code st = SWUPD_REQUIRED_BUNDLE_ERROR" .
  from b[rule_format, OF sample_os_core_facts(3,4,5,6,7)] sample_os_core_facts(8) have "''/usr/bin/sh'' \<in> set (fs st)" by simp
  with st w r show ?thesis by (intro exI[of _ st] conjI)
qed

section \<open>Lemmas about install_bundles\<close>

lemma log_event_fields [simp]:
  "trace (log_event e st) = trace st @ [e]" "target (log_event e st) = target st"
  "staged (log_event e st) = staged st" "tracked (log_event e st) = tracked st"
  by (simp_all add: log_event_def)

lemma create_tracking_file_fields:
  "target (create_tracking_file env b st) = target st"
  "staged (create_tracking_file env b st) = staged st"
  "trace (create_tracking_file env b st) =
     trace st @ [if open_fails env b then Track_failed b else Tracked b]"
  "set (tracked st) \<subseteq> set (tracked (create_tracking_file env b st))"
  "\<not> open_fails env b \<Longrightarrow> b \<in> set (tracked (create_tracking_file env b st))"
  "b \<in> set (tracked st) \<Longrightarrow> tracked (create_tracking_file env b st) = tracked st"
  "tracked st \<noteq> [] \<Longrightarrow> tracked (create_tracking_file env b st) \<noteq> []"
  by (auto simp: create_tracking_file_def)

lemma track_installed_fields [simp]:
  "target (track_installed env b st) = target st"
  "staged (track_installed env b st) = staged st"
  by (simp_all add: track_installed_def create_tracking_file_fields)

lemma track_installed_trace:
  "\<exists>e. (e = Tracked b \<or> e = Track_failed b) \<and> trace (track_installed env b st) = trace st @ [e]"
  by (simp add: track_installed_def create_tracking_file_fields)

lemma track_installed_keeps:
  "tracked st \<noteq> [] \<Longrightarrow> set (tracked st) \<subseteq> set (tracked (track_installed env b st)) \<and>
     tracked (track_installed env b st) \<noteq> []"
  using create_tracking_file_fields(4,7)[of st env b]
  by (simp add: track_installed_def)



lemma extends_refl: "extends P st st"
  by (simp add: extends_def)

lemma extends_trans: "extends P a b \<Longrightarrow> extends P b c \<Longrightarrow> extends P a c"
  by (auto simp: extends_def)

lemma extends_log: "P e \<Longrightarrow> extends P st (log_event e st)"
  by (simp add: extends_def)

lemma extends_mono: "extends P a b \<Longrightarrow> (\<And>e. P e \<Longrightarrow> Q e) \<Longrightarrow> extends Q a b"
  by (auto simp: extends_def list_all_iff)

lemma extends_trace_eq: "trace a = trace a' \<Longrightarrow> trace b = trace b' \<Longrightarrow> extends P a b \<Longrightarrow> extends P a' b'"
  by (simp add: extends_def)

lemma track_installed_extends: "extends is_bookkeeping st (track_installed env b st)"
  using track_installed_trace[of b env st] by (auto simp: extends_def)

lemma already_installed_loop_props:
  "already_installed_loop env bundles st n = (st', n') \<Longrightarrow>
   target st' = target st \<and> staged st' = staged st \<and> extends is_bookkeeping st st'"
proof (induction bundles arbitrary: st n)
  case Nil
  then show ?case by (simp add: extends_refl)
next
  case (Cons b bs)
  let ?st1 = "if is_installed_bundle (target st) b
              then track_installed env b (log_event (Warn_already_installed b) st) else st"
  let ?st2 = "case search_bundle_in_manifest (mom_manifests env) b of None \<Rightarrow> ?st1
              | Some file \<Rightarrow> if is_experimental file then log_event (Warn_experimental b) ?st1 else ?st1"
  let ?n1 = "if is_installed_bundle (target st) b then n + 1 else n"
  from Cons.prems have l: "already_installed_loop env bs ?st2 ?n1 = (st', n')"
    by (simp split: if_splits)
  have e1: "extends is_bookkeeping st ?st1"
    using extends_trans[OF extends_log[of is_bookkeeping "Warn_already_installed b" st]
        track_installed_extends[of "log_event (Warn_already_installed b) st" env b]]
    by (simp add: extends_refl)
  have e2: "extends is_bookkeeping ?st1 ?st2"
    by (auto simp: extends_refl extends_log split: option.splits)
  have f: "target ?st2 = target st" "staged ?st2 = staged st"
    by (auto split: option.splits)
  from Cons.IH[OF l] f extends_trans[OF extends_trans[OF e1 e2]] show ?case by auto
qed

lemma tracked_ok_simps [simp]:
  "tracked_ok fs0 (Tracked b) = is_installed_bundle fs0 b"
  "tracked_ok fs0 (Track_failed b)" "tracked_ok fs0 (Warn_already_installed b)"
  "tracked_ok fs0 (Warn_experimental b)" "tracked_ok fs0 (Error_msg m)"
  "tracked_ok fs0 Error_disk_space"
  "tracked_ok fs0 (Print_failed_to_install x y)" "tracked_ok fs0 (Print_successfully_installed x)"
  "tracked_ok fs0 (Print_dependencies_installed x)" "tracked_ok fs0 (Print_already_installed x)"
  by (simp_all add: tracked_ok_def)

lemma track_installed_extends_ok:
  "is_installed_bundle fs0 b \<Longrightarrow> extends (tracked_ok fs0) st (track_installed env b st)"
  using track_installed_trace[of b env st] by (auto simp: extends_def)

lemma already_installed_loop_ok:
  "already_installed_loop env bundles st n = (st', n') \<Longrightarrow>
   target st' = target st \<and> staged st' = staged st \<and> extends (tracked_ok (target st)) st st'"
proof (induction bundles arbitrary: st n)
  case Nil
  then show ?case by (simp add: extends_refl)
next
  case (Cons b bs)
  let ?st1 = "if is_installed_bundle (target st) b
              then track_installed env b (log_event (Warn_already_installed b) st) else st"
  let ?st2 = "case search_bundle_in_manifest (mom_manifests env) b of None \<Rightarrow> ?st1
              | Some file \<Rightarrow> if is_experimental file then log_event (Warn_experimental b) ?st1 else ?st1"
  let ?n1 = "if is_installed_bundle (target st) b then n + 1 else n"
  let ?P = "tracked_ok (target st)"
  from Cons.prems have l: "already_installed_loop env bs ?st2 ?n1 = (st', n')"
    by (simp split: if_splits)
  have e1: "extends ?P st ?st1"
  proof (cases "is_installed_bundle (target st) b")
    case True
    have "extends ?P st (log_event (Warn_already_installed b) st)" by (simp add: extends_log)
    moreover have "extends ?P (log_event (Warn_already_installed b) st)
        (track_installed env b (log_event (Warn_already_installed b) st))"
      using True by (rule track_installed_extends_ok)
    ultimately show ?thesis using True by (simp add: extends_trans)
  next
    case False
    then show ?thesis by (simp add: extends_refl)
  qed
  have e2: "extends ?P ?st1 ?st2"
    by (auto simp: extends_refl extends_log split: option.splits)
  have f: "target ?st2 = target st" "staged ?st2 = staged st"
    by (auto split: option.splits)
  from Cons.IH[OF l] f have "target st' = target st" "staged st' = staged st"
    "extends ?P ?st2 st'" by simp_all
  with extends_trans[OF extends_trans[OF e1 e2]] show ?case by simp
qed

lemma verify_staged_loop_props:
  "verify_staged_loop env fl st = (code, st') \<Longrightarrow>
   target st' = target st \<and> tracked st' = tracked st \<and> extends is_preflight st st'"
proof (induction fl arbitrary: st)
  case Nil
  then show ?case by (simp add: extends_refl)
next
  case (Cons f fl)
  show ?case
  proof (cases "map_of (staged st) (hash f)")
    case None
    with Cons show ?thesis by simp
  next
    case (Some d)
    show ?thesis
    proof (cases "d = hash f")
      case True
      let ?s = "log_event (Verify_staged (filename f)) st"
      from Cons.prems Some True have "verify_staged_loop env fl ?s = (code, st')" by simp
      from Cons.IH[OF this] extends_trans[OF extends_log[of is_preflight "Verify_staged (filename f)" st]]
      show ?thesis by simp
    next
      case False
      show ?thesis
      proof (cases "swupd_rm_ret env (hash f) = 0")
        case rm: True
        let ?s = "log_event (Rm_staged (hash f))
                     (log_event (Warn_hash_check_failed (filename f))
                        (log_event (Verify_staged (filename f))
                           (st\<lparr>staged := filter (\<lambda>e. fst e \<noteq> hash f) (staged st)\<rparr>)))"
        from Cons.prems Some False rm have "verify_staged_loop env fl ?s = (code, st')" by simp
        from Cons.IH[OF this] have a: "target st' = target st" "tracked st' = tracked st"
          and e: "extends is_preflight ?s st'" by simp_all
        have "extends is_preflight st ?s" by (simp add: extends_def)
        from extends_trans[OF this e] a show ?thesis by simp
      next
        case rm: False
        with Cons.prems Some False show ?thesis by (auto simp: extends_def)
      qed
    qed
  qed
qed

lemma staging_loop_props:
  "staging_loop env fl st = (code, st', plan) \<Longrightarrow>
   tracked st' = tracked st \<and> staged st' = staged st \<and>
   (\<exists>names. trace st' = trace st @ map Staged names \<and>
      (code = SWUPD_OK \<longrightarrow> names = map filename (filter (\<lambda>f. \<not> skipped_file env f) fl)))"
proof (induction fl arbitrary: st code st' plan)
  case Nil
  then show ?case by simp
next
  case (Cons f fl)
  show ?case
  proof (cases "skipped_file env f")
    case True
    with Cons.prems obtain plan' where "staging_loop env fl st = (code, st', plan')"
      by (auto split: prod.splits)
    from Cons.IH[OF this] True show ?thesis by simp
  next
    case ns: False
    obtain ret sn where d: "do_staging env f = (ret, sn)" by (cases "do_staging env f")
    show ?thesis
    proof (cases "ret = 0")
      case False
      with Cons.prems ns d show ?thesis by auto
    next
      case True
      let ?s = "log_event (Staged (filename f))
                           (st\<lparr>target :=
                                 (if is_dir f then add_path (filename f) (target st)
                                  else (case sn of
                                          None \<Rightarrow> target st
                                        | Some s \<Rightarrow> add_path s (target st)))\<rparr>)"
      from Cons.prems ns d True obtain plan' where "staging_loop env fl ?s = (code, st', plan')"
        by (auto split: prod.splits)
      from Cons.IH[OF this] obtain names where
        a: "tracked st' = tracked st" "staged st' = staged st"
        and n: "trace st' = trace ?s @ map Staged names"
        "code = SWUPD_OK \<longrightarrow> names = map filename (filter (\<lambda>f. \<not> skipped_file env f) fl)"
        by auto
      from n ns have "trace st' = trace st @ map Staged (filename f # names)"
        "code = SWUPD_OK \<longrightarrow> filename f # names = map filename (filter (\<lambda>f. \<not> skipped_file env f) (f # fl))"
        by simp_all
      with a show ?thesis by (intro conjI exI[of _ "filename f # names"]) simp_all
    qed
  qed
qed

lemma rename_loop_props:
  "tracked (rename_loop env mf plan st) = tracked st \<and>
   staged (rename_loop env mf plan st) = staged st \<and>
   (\<exists>names. trace (rename_loop env mf plan st) = trace st @ map Renamed names)"
proof (induction plan arbitrary: st)
  case Nil
  show ?case by simp
next
  case (Cons f plan)
  show ?case
  proof (cases "skipped_file env f")
    case True
    with Cons.IH[of st] show ?thesis by simp
  next
    case False
    let ?s = "log_event (Renamed (filename f))
             (st\<lparr>target :=
                   rename_staged_file_to_final
                     (if staging f = None \<and> \<not> is_dir f
                      then find (\<lambda>g. filename g = filename f) mf
                      else Some f)
                     (target st)\<rparr>)"
    from Cons.IH[of ?s] obtain names where
      "tracked (rename_loop env mf plan ?s) = tracked st"
      "staged (rename_loop env mf plan ?s) = staged st"
      "trace (rename_loop env mf plan ?s) = trace st @ map Renamed (filename f # names)"
      by auto
    moreover have "rename_loop env mf (f # plan) st = rename_loop env mf plan ?s"
      using False by simp
    ultimately show ?thesis
      by (intro conjI exI[of _ "filename f # names"]) simp_all
  qed
qed

lemma install_files_shape:
  assumes "install_files env mf fl st = (code, st')"
  shows "tracked st' = tracked st \<and>
    (\<exists>pre names renames post.
       trace st' = trace st @ pre @ map Staged names @ map Renamed renames @ post \<and>
       list_all is_preflight pre \<and>
       (code = SWUPD_OK \<and> names = map filename (filter (\<lambda>f. \<not> skipped_file env f) fl) \<and>
          post = [Sync, Scripts_run]
        \<or> code \<noteq> SWUPD_OK \<and> renames = [] \<and> post = []))"
proof -
  let ?st2 = "if length fl > 10 then log_event Download_packs (log_event Rm_download_dir st)
              else log_event Rm_download_dir st"
  obtain ret staged' where dl: "download_fullfiles env fl (staged ?st2) = (ret, staged')"
    by (cases "download_fullfiles env fl (staged ?st2)")
  let ?st3 = "log_event (Download_fullfiles (map filename fl)) (?st2\<lparr>staged := staged'\<rparr>)"
  have e3: "extends is_preflight st ?st3" "tracked ?st3 = tracked st"
    by (simp_all add: extends_def)
  show ?thesis
  proof (cases "ret = 0")
    case False
    with assms dl have "code = SWUPD_OTHER \<bar>ret\<bar>" "st' = ?st3"
      by (simp_all add: install_files_def Let_def)
    moreover from e3(1) obtain pre3 where "trace ?st3 = trace st @ pre3" "list_all is_preflight pre3"
      by (auto simp: extends_def)
    ultimately show ?thesis using False e3(2)
      by (intro conjI exI[of _ pre3] exI[of _ "[]"]) simp_all
  next
    case dl0: True
    obtain c4 st4 where v: "verify_staged_loop env fl ?st3 = (c4, st4)"
      by (cases "verify_staged_loop env fl ?st3")
    from verify_staged_loop_props[OF v] e3 extends_trans[OF e3(1)]
    have e4: "extends is_preflight st st4" "tracked st4 = tracked st" by simp_all
    then obtain pre where pre: "trace st4 = trace st @ pre" "list_all is_preflight pre"
      by (auto simp: extends_def)
    show ?thesis
    proof (cases "c4 = SWUPD_OK")
      case False
      with assms dl dl0 v have "code = c4" "st' = st4"
        by (simp_all add: install_files_def Let_def)
      with False pre e4 show ?thesis
        by (intro conjI exI[of _ pre] exI[of _ "[]"]) simp_all
    next
      case v0: True
      obtain c5 st5 plan where s: "staging_loop env fl st4 = (c5, st5, plan)"
        by (cases "staging_loop env fl st4")
      from staging_loop_props[OF s] obtain names where
        n: "tracked st5 = tracked st4" "trace st5 = trace st4 @ map Staged names"
        "c5 = SWUPD_OK \<longrightarrow> names = map filename (filter (\<lambda>f. \<not> skipped_file env f) fl)"
        by auto
      show ?thesis
      proof (cases "c5 = SWUPD_OK")
        case False
        with assms dl dl0 v v0 s have "code = c5" "st' = st5"
          by (simp_all add: install_files_def Let_def)
        with False pre e4 n show ?thesis
          by (intro conjI exI[of _ pre] exI[of _ names] exI[of _ "[]"]) simp_all
      next
        case s0: True
        let ?st6 = "rename_loop env mf plan st5"
        from assms dl dl0 v v0 s s0 have r: "code = SWUPD_OK"
          "st' = log_event Scripts_run (log_event Sync ?st6)"
          by (simp_all add: install_files_def Let_def)
        from rename_loop_props[of env mf plan st5] obtain renames where
          rn: "tracked ?st6 = tracked st5" "trace ?st6 = trace st5 @ map Renamed renames"
          by auto
        from r rn n pre e4 s0 show ?thesis
          by (intro conjI exI[of _ pre] exI[of _ names] exI[of _ renames]
                exI[of _ "[Sync, Scripts_run]"]) simp_all
      qed
    qed
  qed
qed

lemma count_installed_loop_props:
  "count_installed_loop env bundles ms st a b = (st', a', b') \<Longrightarrow>
   target st' = target st \<and> staged st' = staged st \<and> extends (tracked_ok (target st)) st st' \<and>
   (tracked st \<noteq> [] \<longrightarrow> set (tracked st) \<subseteq> set (tracked st') \<and> tracked st' \<noteq> [])"
proof (induction ms arbitrary: st a b)
  case Nil
  then show ?case by (simp add: extends_refl)
next
  case (Cons m ms)
  show ?case
  proof (cases "is_installed_bundle (target st) (component m) \<and> component m \<in> set bundles")
    case False
    with Cons.prems have "count_installed_loop env bundles ms st a b = (st', a', b') \<or>
        count_installed_loop env bundles ms st a (b + 1) = (st', a', b')"
      by (auto split: if_splits)
    with Cons.IH show ?thesis by blast
  next
    case True
    let ?s = "track_installed env (component m) st"
    from Cons.prems True have l: "count_installed_loop env bundles ms ?s (a + 1) b = (st', a', b')"
      by simp
    from True have e: "extends (tracked_ok (target st)) st ?s"
      by (simp add: track_installed_extends_ok)
    from Cons.IH[OF l] have i: "target st' = target st" "staged st' = staged st"
      "extends (tracked_ok (target st)) ?s st'"
      "tracked ?s \<noteq> [] \<longrightarrow> set (tracked ?s) \<subseteq> set (tracked st') \<and> tracked st' \<noteq> []"
      by simp_all
    from i(4) track_installed_keeps[of st env "component m"]
    have "tracked st \<noteq> [] \<longrightarrow> set (tracked st) \<subseteq> set (tracked st') \<and> tracked st' \<noteq> []"
      by auto
    with i extends_trans[OF e i(3)] show ?thesis by simp
  qed
qed

lemma print_totals_props:
  "target (print_totals ret r a b d st) = target st \<and>
   staged (print_totals ret r a b d st) = staged st \<and>
   tracked (print_totals ret r a b d st) = tracked st \<and>
   extends (tracked_ok fs0) st (print_totals ret r a b d st)"
  by (simp add: print_totals_def Let_def extends_def)

lemma install_out_props:
  assumes "install_out env bundles tib n invalid ret st = (code, st')"
  shows "target st' = target st" "staged st' = staged st"
    "extends (tracked_ok (target st)) st st'"
    "code = (if invalid \<and> ret = SWUPD_OK then SWUPD_INVALID_BUNDLE else ret)"
    "tracked st \<noteq> [] \<longrightarrow> set (tracked st) \<subseteq> set (tracked st')"
proof -
  obtain st1 a b where c: "count_installed_loop env bundles tib st 0 0 = (st1, a, b)"
    by (cases "count_installed_loop env bundles tib st 0 0") auto
  with assms have r: "st' = print_totals ret (int (length bundles)) n a b st1"
    "code = (if invalid \<and> ret = SWUPD_OK then SWUPD_INVALID_BUNDLE else ret)"
    by (simp_all add: install_out_def)
  note p = print_totals_props[of ret "int (length bundles)" n a b st1 "target st"]
  note q = count_installed_loop_props[OF c]
  from r p q show "target st' = target st" "staged st' = staged st" by simp_all
  from r p q extends_trans[of "tracked_ok (target st)" st st1 st']
  show "extends (tracked_ok (target st)) st st'" by simp
  from r show "code = (if invalid \<and> ret = SWUPD_OK then SWUPD_INVALID_BUNDLE else ret)" by simp
  from r p q show "tracked st \<noteq> [] \<longrightarrow> set (tracked st) \<subseteq> set (tracked st')" by simp
qed


lemma install_bundles_cases:
  assumes r: "install_bundles fuel env bundles subs st = Some (code, st')"
  obtains
    (nothing_new) ret subs' st1 n where
      "add_subscriptions fuel env (target st) bundles subs False 0 = Some (ret, subs')"
      "already_installed_loop env bundles st 0 = (st1, n)"
      "ret AND add_sub_NEW = 0"
      "install_out env bundles [] n False
         (if ret AND add_sub_ERR \<noteq> 0 then SWUPD_COULDNT_LOAD_MANIFEST
          else if ret AND add_sub_BADNAME \<noteq> 0 then SWUPD_INVALID_BUNDLE
          else SWUPD_OK) st1 = (code, st')"
  | (aborted) ret subs' st1 n tib c msg where
      "add_subscriptions fuel env (target st) bundles subs False 0 = Some (ret, subs')"
      "already_installed_loop env bundles st 0 = (st1, n)"
      "ret AND add_sub_NEW \<noteq> 0"
      "c = SWUPD_RECURSE_MANIFEST \<or> c = SWUPD_DISK_SPACE_ERROR"
      "is_bookkeeping msg" "\<forall>b. msg \<noteq> Tracked b"
      "install_out env bundles tib n (ret AND add_sub_BADNAME \<noteq> 0) c (log_event msg st1)
         = (code, st')"
  | (files) ret subs' st1 n mf fl c st2 where
      "add_subscriptions fuel env (target st) bundles subs False 0 = Some (ret, subs')"
      "already_installed_loop env bundles st 0 = (st1, n)"
      "ret AND add_sub_NEW \<noteq> 0"
      "install_files env mf fl st1 = (c, st2)"
      "install_out env bundles (recurse_manifest env subs') n (ret AND add_sub_BADNAME \<noteq> 0) c st2
         = (code, st')"
proof -
  from r obtain ret subs' where a: "add_subscriptions fuel env (target st) bundles subs False 0 = Some (ret, subs')"
    by (auto simp: install_bundles_def split: option.splits)
  obtain st1 n where l: "already_installed_loop env bundles st 0 = (st1, n)"
    by (cases "already_installed_loop env bundles st 0")
  show ?thesis
  proof (cases "ret AND add_sub_NEW = 0")
    case True
    with r a l show ?thesis using nothing_new[OF a l True] by (simp add: install_bundles_def)
  next
    case new: False
    let ?invalid = "ret AND add_sub_BADNAME \<noteq> 0"
    let ?tib = "recurse_manifest env subs'"
    show ?thesis
    proof (cases "?tib = []")
      case True
      with r a l new have "install_out env bundles [] n ?invalid SWUPD_RECURSE_MANIFEST
           (log_event (Error_msg ''Cannot load to install bundles'') st1) = (code, st')"
        by (simp add: install_bundles_def Let_def)
      from aborted[OF a l new _ _ _ this] show ?thesis by simp
    next
      case tib: False
      let ?ib = "recurse_manifest env (read_subscriptions (target st1))"
      show ?thesis
      proof (cases "?ib = []")
        case True
        with r a l new tib have "install_out env bundles ?tib n ?invalid SWUPD_RECURSE_MANIFEST
           (log_event (Error_msg ''Cannot load installed bundles'') st1) = (code, st')"
          by (simp add: install_bundles_def Let_def)
        from aborted[OF a l new _ _ _ this] show ?thesis by simp
      next
        case ib: False
        let ?mf = "consolidate_files_from_bundles ?ib"
        let ?fl = "filter_out_existing_files
                     (filter_out_deleted_files (consolidate_files_from_bundles ?tib))
                     (filter_out_deleted_files ?mf)"
        show ?thesis
        proof (cases "\<not> skip_diskspace_check env \<and>
                        (fudge_exceeds env (get_manifest_list_contentsize ?tib) (available_space env)
                         \<or> available_space env < 0)")
          case True
          with r a l new tib ib have "install_out env bundles ?tib n ?invalid SWUPD_DISK_SPACE_ERROR
             (log_event Error_disk_space st1) = (code, st')"
            by (simp add: install_bundles_def Let_def)
          from aborted[OF a l new _ _ _ this] show ?thesis by simp
        next
          case False
          obtain c st2 where f: "install_files env ?mf ?fl st1 = (c, st2)"
            by (cases "install_files env ?mf ?fl st1")
          from False consider (skipped) "skip_diskspace_check env"
            | (enough) "\<not> skip_diskspace_check env"
                "\<not> fudge_exceeds env (get_manifest_list_contentsize ?tib) (available_space env)"
                "\<not> available_space env < 0"
            by auto
          then have "install_out env bundles ?tib n ?invalid c st2 = (code, st')"
          proof cases
            case skipped
            with f r a l new tib ib show ?thesis by (simp add: install_bundles_def Let_def)
          next
            case enough
            with f r a l new tib ib show ?thesis by (simp add: install_bundles_def Let_def)
          qed
          from files[OF a l new f this] show ?thesis .
        qed
      qed
    qed
  qed
qed

lemma bookkeeping_quiet: "is_bookkeeping e \<Longrightarrow> quiet e"
  by (cases e) (simp_all add: quiet_def)


lemma tracked_ok_quiet: "tracked_ok fs0 e \<Longrightarrow> quiet e"
  by (simp add: tracked_ok_def bookkeeping_quiet)




lemma flag_bits [simp]:
  "add_sub_NEW AND add_sub_ERR = 0" "add_sub_BADNAME AND add_sub_ERR = 0"
  "add_sub_ERR AND add_sub_ERR \<noteq> 0" "add_sub_BADNAME AND add_sub_BADNAME \<noteq> 0"
  "add_sub_NEW AND add_sub_NEW \<noteq> 0" "add_sub_BADNAME AND add_sub_NEW = 0"
  "add_sub_ERR AND add_sub_NEW = 0" "add_sub_ERR AND add_sub_BADNAME = 0"
  "add_sub_NEW AND add_sub_BADNAME = 0"
  by (simp_all add: add_sub_NEW_def add_sub_ERR_def add_sub_BADNAME_def)









lemma extendsD:
  assumes "extends P a b"
  obtains evs where "trace b = trace a @ evs" "list_all P evs"
  using assms by (auto simp: extends_def)








lemma install_bundles_returns:
  "add_subscriptions fuel env (target st) bundles subs False 0 = Some x \<Longrightarrow>
   \<exists>code st'. install_bundles fuel env bundles subs st = Some (code, st')"
  by (cases x) (auto simp: install_bundles_def split: prod.splits)










subsection \<open>The tracking records and the disk space check of an installation\<close>

lemma install_files_no_tracking:
  assumes "install_files env mf fl st = (c, st')"
  shows "\<exists>evs. trace st' = trace st @ evs \<and> list_all (\<lambda>e. \<forall>b. e \<noteq> Tracked b) evs"
proof -
  from install_files_shape[OF assms] obtain pre names renames post where
    sh: "trace st' = trace st @ pre @ map Staged names @ map Renamed renames @ post"
    "list_all is_preflight pre" "post = [Sync, Scripts_run] \<or> post = []" by auto
  have "list_all (\<lambda>e. \<forall>b. e \<noteq> Tracked b) pre"
    using sh(2) by (auto simp: list_all_iff)
  moreover have "list_all (\<lambda>e. \<forall>b. e \<noteq> Tracked b) (map Staged names)"
    "list_all (\<lambda>e. \<forall>b. e \<noteq> Tracked b) (map Renamed renames)"
    by (auto simp: list_all_iff)
  moreover from sh(3) have "list_all (\<lambda>e. \<forall>b. e \<noteq> Tracked b) post" by auto
  ultimately show ?thesis using sh(1)
    by (intro exI[of _ "pre @ map Staged names @ map Renamed renames @ post"]) simp
qed

lemma tracks_installed_append [simp]:
  "tracks_installed fs0 (xs @ ys) \<longleftrightarrow> tracks_installed fs0 xs \<and> tracks_installed fs0 ys"
  by (simp add: tracks_installed_def)

lemma tracked_ok_tracks: "list_all (tracked_ok fs0) evs \<Longrightarrow> tracks_installed fs0 evs"
  by (auto simp: tracks_installed_def tracked_ok_def list_all_iff split: event.splits)

lemma no_tracking_tracks:
  "list_all (\<lambda>e. \<forall>b. e \<noteq> Tracked b) evs \<Longrightarrow> tracks_installed fs0 evs"
  by (auto simp: tracks_installed_def list_all_iff split: event.splits)

lemma tracked_ok_quiet_list: "list_all (tracked_ok fs0) evs \<Longrightarrow> list_all quiet evs"
  by (auto simp: list_all_iff tracked_ok_quiet)

lemma install_bundles_tracking:
  assumes "install_bundles fuel env bundles subs st = Some (code, st')"
  shows "\<exists>pre post. trace st' = trace st @ pre @ post \<and>
           tracks_installed (target st) pre \<and> list_all quiet post \<and>
           tracks_installed (target st') post"
  using assms
proof (cases rule: install_bundles_cases)
  case (nothing_new ret subs' st1 n)
  from already_installed_loop_ok[OF nothing_new(2)] obtain ev1 where
    ev1: "trace st1 = trace st @ ev1" "list_all (tracked_ok (target st)) ev1"
    and tg: "target st1 = target st"
    by (auto elim: extendsD)
  from install_out_props(1,3)[OF nothing_new(4)] obtain ev2 where
    ev2: "trace st' = trace st1 @ ev2" "list_all (tracked_ok (target st1)) ev2"
    and tg2: "target st' = target st1"
    by (auto elim: extendsD)
  from ev1 ev2 tg2 show ?thesis
    by (intro exI[of _ ev1] exI[of _ ev2])
       (simp add: tracked_ok_tracks tracked_ok_quiet_list)
next
  case (aborted ret subs' st1 n tib c msg)
  from already_installed_loop_ok[OF aborted(2)] obtain ev1 where
    ev1: "trace st1 = trace st @ ev1" "list_all (tracked_ok (target st)) ev1"
    by (auto elim: extendsD)
  from install_out_props(1,3)[OF aborted(7)] obtain ev2 where
    ev2: "trace st' = trace (log_event msg st1) @ ev2"
    "list_all (tracked_ok (target (log_event msg st1))) ev2"
    and tg2: "target st' = target (log_event msg st1)"
    by (auto elim: extendsD)
  from aborted(6) have "tracks_installed (target st) [msg]"
    by (auto simp: tracks_installed_def split: event.splits)
  with ev1 ev2 tg2 show ?thesis
    by (intro exI[of _ "ev1 @ [msg]"] exI[of _ ev2])
       (simp add: tracked_ok_tracks tracked_ok_quiet_list)
next
  case (files ret subs' st1 n mf fl c st2)
  from already_installed_loop_ok[OF files(2)] obtain ev1 where
    ev1: "trace st1 = trace st @ ev1" "list_all (tracked_ok (target st)) ev1"
    by (auto elim: extendsD)
  from install_files_no_tracking[OF files(4)] obtain evm where
    evm: "trace st2 = trace st1 @ evm" "list_all (\<lambda>e. \<forall>b. e \<noteq> Tracked b) evm" by blast
  from install_out_props(1,3)[OF files(5)] obtain ev2 where
    ev2: "trace st' = trace st2 @ ev2" "list_all (tracked_ok (target st2)) ev2"
    and tg2: "target st' = target st2"
    by (auto elim: extendsD)
  from ev1 evm ev2 tg2 show ?thesis
    by (intro exI[of _ "ev1 @ evm"] exI[of _ ev2])
       (simp add: tracked_ok_tracks tracked_ok_quiet_list no_tracking_tracks)
qed







section \<open>The claims about install_bundles\<close>










lemma sample_subscribes_os_core_vim:
  "add_subscriptions 1 sample_install_env (target bare_system) [''os-core'', ''vim''] [] False 0
     = Some (2, [''vim''])"
  by code_simp






section \<open>The tracking records, the disk space check and the check of the staging area\<close>

text \<open>
  C9, as the source has it.  The claim says that \<^verbatim>\<open>remove_bundles\<close> deletes the tracking
  file of a bundle only after the files of the bundle have been unlinked; the source
  calls \<^verbatim>\<open>remove_tracked\<close> in the loop that selects the bundles, before
  \<^verbatim>\<open>remove_files_from_fs\<close> runs.  Removing the bundle editors untracks it first and unlinks
  its files afterwards.
\<close>

theorem remove_untracks_before_unlinking_counterexample:
  "map_option events (remove_bundles 0 sample_remove_env sample_fs [''editors''] [''editors''])
     = Some [Info_removing_bundle ''editors'', Untracked ''editors'', Info_deleting_files,
             Unlinked ''/usr/bin/ed'', Unlinked ''/usr/share/clear/bundles/editors'',
             Info_total_deleted 2, Print_successfully_removed 1]"
  by code_simp

text \<open>
  C9, amended.  In every run of \<^verbatim>\<open>remove_bundles\<close> that returns, every tracking file is
  removed before the first file is unlinked.  In every run of \<^verbatim>\<open>install_bundles\<close> that
  returns, the trace has two parts: in the first a tracking file is created only for a
  bundle that was installed when the run began; the second has no staging, no renaming
  and no sync, and a tracking file is created there only for a bundle that is installed
  in the target tree that the run leaves.
\<close>

theorem tracking_record_order:
  "(remove_bundles rfuel renv fs0 tr0 rbundles = Some rst \<longrightarrow> untracks_first (events rst)) \<and>
   (install_bundles fuel env bundles subs st = Some (code, st') \<longrightarrow>
      (\<exists>pre post. trace st' = trace st @ pre @ post \<and>
           tracks_installed (target st) pre \<and> list_all quiet post \<and>
           tracks_installed (target st') post))"
  using remove_bundles_untracks_first install_bundles_tracking by blast

lemma sample_removal_editors:
  "remove_bundles 0 sample_remove_env sample_fs [''editors''] [''editors''] \<noteq> None"
  by code_simp

theorem tracking_record_order_witness:
  "(\<exists>rst. remove_bundles 0 sample_remove_env sample_fs [''editors''] [''editors''] = Some rst \<and>
       untracks_first (events rst)) \<and>
   (\<exists>code st'. install_bundles 1 sample_install_env [''os-core'', ''vim''] [] bare_system
        = Some (code, st') \<and>
      (\<exists>pre post. trace st' = trace bare_system @ pre @ post \<and>
           tracks_installed (target bare_system) pre \<and> list_all quiet post \<and>
           tracks_installed (target st') post))"
proof -
  from sample_removal_editors obtain rst where
    a: "remove_bundles 0 sample_remove_env sample_fs [''editors''] [''editors''] = Some rst"
    by blast
  from install_bundles_returns[OF sample_subscribes_os_core_vim] obtain code st' where
    b: "install_bundles 1 sample_install_env [''os-core'', ''vim''] [] bare_system = Some (code, st')"
    by blast
  note t = tracking_record_order[where rfuel=0 and renv=sample_remove_env and ?fs0.0=sample_fs
      and ?tr0.0="[''editors'']" and rbundles="[''editors'']" and rst=rst and fuel=1
      and env=sample_install_env and bundles="[''os-core'', ''vim'']" and subs="[]"
      and st=bare_system and code=code and st'=st']
  from t a have "untracks_first (events rst)" by simp
  moreover from t b have "\<exists>pre post. trace st' = trace bare_system @ pre @ post \<and>
           tracks_installed (target bare_system) pre \<and> list_all quiet post \<and>
           tracks_installed (target st') post" by simp
  ultimately show ?thesis using a b by blast
qed








text \<open>
  C8.  The claim says that a file of the staging area whose digest is wrong is unlinked
  and fetched again before the staging; the comment of the source says so too (the file
  is removed "so it can be re-downloaded", the message says "will attempt to download
  fullfile").  In the source \<^verbatim>\<open>download_fullfiles\<close> runs before the check and is not
  called after it.  With the file of hash \<^verbatim>\<open>c1\<close> corrupt in the staging area (the download
  leaves a file that is there as it is), the steps 4 to 7 for the plan of this one file
  check it, warn, unlink it, and go on to stage and rename with no further download; the
  staging area is empty at the end.
\<close>

theorem corrupt_staged_file_not_refetched:
  "trace (snd (install_files sample_install_env [] [sample_file ''/usr/bin/vim'' ''c1''] corrupt_system))
     = [Rm_download_dir, Download_fullfiles [''/usr/bin/vim''], Verify_staged ''/usr/bin/vim'',
        Warn_hash_check_failed ''/usr/bin/vim'', Rm_staged ''c1'', Staged ''/usr/bin/vim'',
        Renamed ''/usr/bin/vim'', Sync, Scripts_run] \<and>
   staged (snd (install_files sample_install_env [] [sample_file ''/usr/bin/vim'' ''c1''] corrupt_system))
     = []"
  by code_simp

end
